theory Spec2Isabelle
  imports Main
begin

section \<open>Text and Python's string operations\<close>

text \<open>
  A text is a list of characters, one \<^typ>\<open>char\<close> per code point; the model covers the
  code points below 256. The character classes are the ones Python's \<^verbatim>\<open>re\<close> and
  \<^verbatim>\<open>str\<close> use for \<^verbatim>\<open>str\<close> values on that range: \<^verbatim>\<open>\s\<close> and \<^verbatim>\<open>str.strip\<close> share
  one whitespace set, \<^verbatim>\<open>\d\<close> is the decimal digits, \<^verbatim>\<open>\w\<close> is the alphanumeric
  characters and the underscore.
\<close>

definition in_range :: "char \<Rightarrow> char \<Rightarrow> char \<Rightarrow> bool" where
  "in_range lo hi c = ((of_char lo :: nat) \<le> of_char c \<and> (of_char c :: nat) \<le> of_char hi)"

definition is_digit :: "char \<Rightarrow> bool" where
  "is_digit c = in_range CHR ''0'' CHR ''9'' c"

definition is_space :: "char \<Rightarrow> bool" where
  "is_space c = (in_range (CHR 0x09) (CHR 0x0D) c \<or> in_range (CHR 0x1C) (CHR 0x20) c
     \<or> c = CHR 0x85 \<or> c = CHR 0xA0)"

definition is_word :: "char \<Rightarrow> bool" where
  "is_word c = (in_range CHR ''a'' CHR ''z'' c \<or> in_range CHR ''A'' CHR ''Z'' c
     \<or> in_range CHR ''0'' CHR ''9'' c \<or> c = CHR ''_''
     \<or> c \<in> set [CHR 0xAA, CHR 0xB2, CHR 0xB3, CHR 0xB5, CHR 0xB9, CHR 0xBA,
                  CHR 0xBC, CHR 0xBD, CHR 0xBE]
     \<or> in_range (CHR 0xC0) (CHR 0xD6) c \<or> in_range (CHR 0xD8) (CHR 0xF6) c
     \<or> in_range (CHR 0xF8) (CHR 0xFF) c)"

text \<open>\<^verbatim>\<open>s.strip()\<close>: whitespace removed at both ends.\<close>

definition strip :: "string \<Rightarrow> string" where
  "strip s = rev (dropWhile is_space (rev (dropWhile is_space s)))"

text \<open>\<^verbatim>\<open>s[i:j]\<close> for offsets \<open>0 \<le> i\<close>, \<open>0 \<le> j\<close>: empty when \<open>j \<le> i\<close>.\<close>

definition slice :: "string \<Rightarrow> nat \<Rightarrow> nat \<Rightarrow> string" where
  "slice s i j = take (j - i) (drop i s)"

text \<open>\<^verbatim>\<open>s.split(c)\<close> for a one-character separator: empty pieces are kept, and
  the result is never the empty list.\<close>

fun split_chr :: "char \<Rightarrow> string \<Rightarrow> string list" where
  "split_chr c [] = [[]]"
| "split_chr c (x # xs) =
     (if x = c then [] # split_chr c xs
      else (case split_chr c xs of
              w # ws \<Rightarrow> (x # w) # ws
            | [] \<Rightarrow> [[x]]))"

text \<open>\<^verbatim>\<open>sep.join(parts)\<close>.\<close>

fun join :: "string \<Rightarrow> string list \<Rightarrow> string" where
  "join sep [] = []"
| "join sep [p] = p"
| "join sep (p # q # ps) = p @ sep @ join sep (q # ps)"

text \<open>\<^verbatim>\<open>s.startswith(p)\<close>.\<close>

definition startswith :: "string \<Rightarrow> string \<Rightarrow> bool" where
  "startswith s p = (take (length p) s = p)"

text \<open>\<^verbatim>\<open>s.find(sub, start)\<close> for \<open>0 \<le> start\<close>: the lowest offset at or after
  \<open>start\<close> where \<open>sub\<close> occurs, \<open>None\<close> for Python's \<open>-1\<close>.\<close>

fun find_in :: "string \<Rightarrow> string \<Rightarrow> nat \<Rightarrow> nat option" where
  "find_in sub [] i = (if sub = [] then Some i else None)"
| "find_in sub (x # xs) i =
     (if startswith (x # xs) sub then Some i else find_in sub xs (Suc i))"

definition str_find :: "string \<Rightarrow> string \<Rightarrow> nat \<Rightarrow> nat option" where
  "str_find s sub start = (if length s < start then None else find_in sub (drop start s) start)"

text \<open>\<^verbatim>\<open>sub in s\<close>.\<close>

definition contains :: "string \<Rightarrow> string \<Rightarrow> bool" where
  "contains s sub = (find_in sub s 0 \<noteq> None)"

text \<open>\<^verbatim>\<open>int(s)\<close> on a run of decimal digits, and \<^verbatim>\<open>str(n)\<close> for the page numbers
  \<^verbatim>\<open>f"{i+1}"\<close> writes.\<close>

definition digit_val :: "char \<Rightarrow> int" where
  "digit_val c = int (of_char c) - 48"

definition int_of_digits :: "string \<Rightarrow> int" where
  "int_of_digits s = foldl (\<lambda>n c. 10 * n + digit_val c) 0 s"

fun str_nat :: "nat \<Rightarrow> string" where
  "str_nat n =
     (if n < 10 then [char_of (48 + n)]
      else str_nat (n div 10) @ [char_of (48 + n mod 10)])"

declare str_nat.simps [simp del]

definition str_int :: "int \<Rightarrow> string" where
  "str_int i = (if i < 0 then CHR ''-'' # str_nat (nat (- i)) else str_nat (nat i))"


section \<open>Regular expressions as \<^verbatim>\<open>re\<close> matches them\<close>

text \<open>
  The patterns of the program are kept as data, one constructor per construct of the
  pattern language the sources use, and matched by a backtracking matcher that lists the
  ways a pattern can match at a position in the order \<^verbatim>\<open>re\<close> tries them; the match
  \<^verbatim>\<open>re\<close> reports is the first of the list.

  \<^item> \<open>Lit c\<close> a literal character; \<open>Dot\<close> is \<^verbatim>\<open>.\<close>; \<open>Cls neg items\<close> is a
    bracket class or an escape (\<open>neg\<close> for \<^verbatim>\<open>[^...]\<close>);
  \<^item> \<open>Bol\<close>, \<open>Eol\<close>, \<open>EndZ\<close> are \<^verbatim>\<open>^\<close>, \<^verbatim>\<open>$\<close>, \<^verbatim>\<open>\Z\<close>;
  \<^item> \<open>Seq\<close>, \<open>Alt\<close> are concatenation and \<^verbatim>\<open>|\<close>; \<open>Rep greedy r\<close> is \<^verbatim>\<open>r*\<close>
    (\<open>greedy\<close>) or \<^verbatim>\<open>r*?\<close>;
  \<^item> \<open>Grp n r\<close> is the capturing group number \<open>n\<close>;
  \<^item> \<open>Ahead True r\<close> is \<^verbatim>\<open>(?=r)\<close>, \<open>Ahead False r\<close> is \<^verbatim>\<open>(?!r)\<close>;
    \<open>Behind s\<close> is \<^verbatim>\<open>(?<=s)\<close> for a literal \<open>s\<close>.
\<close>

datatype citem = CChar char | CRange char char | CWord | CSpace | CDigit

datatype re =
    Lit char
  | Dot
  | Cls bool "citem list"
  | Bol
  | Eol
  | EndZ
  | Eps
  | Seq re re
  | Alt re re
  | Rep bool re
  | Grp nat re
  | Ahead bool re
  | Behind string

text \<open>The two flags the sources pass: \<^verbatim>\<open>re.MULTILINE\<close> and \<^verbatim>\<open>re.DOTALL\<close>.\<close>

record flags =
  multiline :: bool
  dotall :: bool

definition NOFLAGS :: flags where
  "NOFLAGS = \<lparr>multiline = False, dotall = False\<rparr>"

definition MULTILINE :: flags where
  "MULTILINE = \<lparr>multiline = True, dotall = False\<rparr>"

definition DOTALL :: flags where
  "DOTALL = \<lparr>multiline = False, dotall = True\<rparr>"

fun citem_has :: "citem \<Rightarrow> char \<Rightarrow> bool" where
  "citem_has (CChar x) c = (c = x)"
| "citem_has (CRange lo hi) c = in_range lo hi c"
| "citem_has CWord c = is_word c"
| "citem_has CSpace c = is_space c"
| "citem_has CDigit c = is_digit c"

definition cls_has :: "bool \<Rightarrow> citem list \<Rightarrow> char \<Rightarrow> bool" where
  "cls_has neg items c = (list_ex (\<lambda>i. citem_has i c) items \<noteq> neg)"

text \<open>
  A matcher state is a position in the subject string: the offset, the text before it
  (nearest character first), the text from it on, and the groups captured so far as
  (number, start, end), latest first.
\<close>

type_synonym caps = "(nat \<times> nat \<times> nat) list"

record mstate =
  pos :: nat
  seen :: string
  rest :: string
  caps :: caps

definition step :: "mstate \<Rightarrow> char \<Rightarrow> string \<Rightarrow> mstate" where
  "step st x xs = st\<lparr>pos := Suc (pos st), seen := x # seen st, rest := xs\<rparr>"

definition take1 :: "(char \<Rightarrow> bool) \<Rightarrow> mstate \<Rightarrow> mstate list" where
  "take1 ok st =
     (case rest st of
        [] \<Rightarrow> []
      | x # xs \<Rightarrow> if ok x then [step st x xs] else [])"

text \<open>
  \<open>ms fl r st\<close>: the states in which a match of \<open>r\<close> started at \<open>st\<close> can end, in
  backtracking order. \<^verbatim>\<open>^\<close> holds at the start of the string and, under MULTILINE,
  after a newline; \<^verbatim>\<open>$\<close> holds at the end of the string, before a newline that ends
  the string and, under MULTILINE, before any newline; \<^verbatim>\<open>.\<close> takes a newline only
  under DOTALL. A repetition does not take an iteration that consumes nothing; every
  repetition of the program's patterns is over an item that consumes a character. A
  lookahead keeps the captures it was entered with; no pattern of the program has a group
  inside a lookahead.
\<close>

function ms :: "flags \<Rightarrow> re \<Rightarrow> mstate \<Rightarrow> mstate list" where
  "ms fl (Lit c) st = take1 (\<lambda>x. x = c) st"
| "ms fl Dot st = take1 (\<lambda>x. dotall fl \<or> x \<noteq> CHR ''\<newline>'') st"
| "ms fl (Cls neg items) st = take1 (cls_has neg items) st"
| "ms fl Bol st =
     (if seen st = [] \<or> (multiline fl \<and> hd (seen st) = CHR ''\<newline>'') then [st] else [])"
| "ms fl Eol st =
     (if rest st = [] \<or> rest st = ''\<newline>''
         \<or> (multiline fl \<and> hd (rest st) = CHR ''\<newline>'') then [st] else [])"
| "ms fl EndZ st = (if rest st = [] then [st] else [])"
| "ms fl Eps st = [st]"
| "ms fl (Seq r1 r2) st = concat (map (ms fl r2) (ms fl r1 st))"
| "ms fl (Alt r1 r2) st = ms fl r1 st @ ms fl r2 st"
| "ms fl (Rep greedy r) st =
     (let more = concat (map (\<lambda>st'. if length (rest st') < length (rest st)
                                       then ms fl (Rep greedy r) st' else [])
                             (ms fl r st))
      in if greedy then more @ [st] else st # more)"
| "ms fl (Grp n r) st =
     map (\<lambda>st'. st'\<lparr>caps := (n, pos st, pos st') # caps st'\<rparr>) (ms fl r st)"
| "ms fl (Ahead positive r) st = (if (ms fl r st \<noteq> []) = positive then [st] else [])"
| "ms fl (Behind lit) st =
     (if take (length lit) (seen st) = rev lit then [st] else [])"
  by pat_completeness auto
termination
  by (relation "measures [\<lambda>(fl, r, st). size r, \<lambda>(fl, r, st). length (rest st)]") auto

declare ms.simps(10) [simp del]

text \<open>A match object: \<^verbatim>\<open>m.start()\<close>, \<^verbatim>\<open>m.end()\<close> and the spans of its groups.\<close>

record rmatch =
  m_start :: nat
  m_end :: nat
  m_groups :: caps

text \<open>
  The first match at a position. \<open>must_advance\<close> is the rule of the iterating functions
  (\<^verbatim>\<open>finditer\<close>, \<^verbatim>\<open>sub\<close>, \<^verbatim>\<open>split\<close>) after an empty match: the next match may
  not be empty at the same position.
\<close>

definition first_at :: "flags \<Rightarrow> re \<Rightarrow> bool \<Rightarrow> mstate \<Rightarrow> rmatch option" where
  "first_at fl r must_advance st =
     (case filter (\<lambda>st'. if must_advance then pos st' \<noteq> pos st else True) (ms fl r st) of
        [] \<Rightarrow> None
      | st' # _ \<Rightarrow> Some \<lparr>m_start = pos st, m_end = pos st', m_groups = caps st'\<rparr>)"

text \<open>The leftmost match at or after a position.\<close>

function scan :: "flags \<Rightarrow> re \<Rightarrow> bool \<Rightarrow> mstate \<Rightarrow> rmatch option" where
  "scan fl r must_advance st =
     (case first_at fl r must_advance st of
        Some m \<Rightarrow> Some m
      | None \<Rightarrow> (case rest st of
                   [] \<Rightarrow> None
                 | x # xs \<Rightarrow> scan fl r False (step st x xs)))"
  by pat_completeness auto
termination
  by (relation "measure (\<lambda>(fl, r, adv, st). length (rest st))") (auto simp: step_def)

declare scan.simps [simp del]

definition cursor_at :: "string \<Rightarrow> nat \<Rightarrow> mstate" where
  "cursor_at text i =
     \<lparr>pos = min i (length text), seen = rev (take i text), rest = drop i text, caps = []\<rparr>"

text \<open>\<^verbatim>\<open>re.search(r, text, flags)\<close>, \<^verbatim>\<open>compiled.search(text, i)\<close> and
  \<^verbatim>\<open>re.match(r, text, flags)\<close>.\<close>

definition re_search :: "flags \<Rightarrow> re \<Rightarrow> string \<Rightarrow> rmatch option" where
  "re_search fl r text = scan fl r False (cursor_at text 0)"

definition search_from :: "flags \<Rightarrow> re \<Rightarrow> string \<Rightarrow> nat \<Rightarrow> rmatch option" where
  "search_from fl r text i = scan fl r False (cursor_at text i)"

definition re_match :: "flags \<Rightarrow> re \<Rightarrow> string \<Rightarrow> rmatch option" where
  "re_match fl r text = first_at fl r False (cursor_at text 0)"

text \<open>\<^verbatim>\<open>m.group(n)\<close> of a match in \<open>text\<close>; group 0 is the whole match. Every group of
  the program's patterns takes part in every match of its pattern.\<close>

definition m_group :: "string \<Rightarrow> rmatch \<Rightarrow> nat \<Rightarrow> string" where
  "m_group text m n =
     (if n = 0 then slice text (m_start m) (m_end m)
      else (case map_of (m_groups m) n of
              Some (s, e) \<Rightarrow> slice text s e
            | None \<Rightarrow> []))"

text \<open>The matcher only moves forward, and never past the end of the text.\<close>

lemma take1_inv:
  "st' \<in> set (take1 ok st) \<Longrightarrow>
     pos st < pos st' \<and> pos st' + length (rest st') = pos st + length (rest st)"
  by (cases "rest st") (auto simp: take1_def step_def split: if_splits)

lemma ms_inv:
  "st' \<in> set (ms fl r st) \<Longrightarrow>
     pos st \<le> pos st' \<and> pos st' + length (rest st') = pos st + length (rest st)"
proof (induction fl r st arbitrary: st' rule: ms.induct)
  case (1 fl c st)
  then show ?case by (auto dest!: take1_inv)
next
  case (2 fl st)
  then show ?case by (auto dest!: take1_inv)
next
  case (3 fl neg items st)
  then show ?case by (auto dest!: take1_inv)
next
  case (8 fl r1 r2 st)
  then obtain mid where m: "mid \<in> set (ms fl r1 st)" "st' \<in> set (ms fl r2 mid)"
    by auto
  from "8.IH"(1) [OF m(1)] "8.IH"(2) [OF m(1) m(2)] show ?case
    by simp
next
  case (9 fl r1 r2 st)
  then show ?case by auto
next
  case (10 fl greedy r st)
  show ?case
  proof (cases "st' = st")
    case True
    then show ?thesis by simp
  next
    case False
    with "10.prems" [unfolded ms.simps(10) [of fl greedy r st]]
    obtain mid where m: "mid \<in> set (ms fl r st)"
      "length (rest mid) < length (rest st)" "st' \<in> set (ms fl (Rep greedy r) mid)"
      by (auto simp: Let_def split: if_splits)
    from "10.IH"(1) [OF m(1)] "10.IH"(2) [OF m(1) m(2) m(3)] show ?thesis
      by simp
  qed
next
  case (11 fl n r st)
  then show ?case by auto
qed (simp_all split: if_splits)

lemma first_at_inv:
  assumes "first_at fl r adv st = Some m"
  shows "m_start m = pos st \<and> pos st \<le> m_end m
    \<and> m_end m \<le> pos st + length (rest st) \<and> (adv \<longrightarrow> m_end m \<noteq> pos st)"
proof -
  let ?ok = "\<lambda>st'. if adv then pos st' \<noteq> pos st else True"
  from assms obtain st' sts where f: "filter ?ok (ms fl r st) = st' # sts"
    and m: "m = \<lparr>m_start = pos st, m_end = pos st', m_groups = caps st'\<rparr>"
    by (auto simp: first_at_def split: list.splits)
  from f have "st' \<in> set (filter ?ok (ms fl r st))"
    by simp
  then have "st' \<in> set (ms fl r st)" and ok: "?ok st'"
    by auto
  from ms_inv [OF this(1)] ok show ?thesis
    by (auto simp: m split: if_splits)
qed

lemma scan_inv:
  "scan fl r adv st = Some m \<Longrightarrow>
     pos st \<le> m_start m \<and> m_start m \<le> m_end m
     \<and> m_end m \<le> pos st + length (rest st)
     \<and> (adv \<and> m_start m = pos st \<longrightarrow> m_end m \<noteq> pos st)"
proof (induction fl r adv st rule: scan.induct)
  case (1 fl r adv st)
  show ?case
  proof (cases "first_at fl r adv st")
    case (Some m')
    with "1.prems" have "m' = m"
      by (simp add: scan.simps [of fl r adv st])
    with first_at_inv [OF Some] show ?thesis
      by auto
  next
    case None
    with "1.prems" obtain x xs where r: "rest st = x # xs"
      and s: "scan fl r False (step st x xs) = Some m"
      by (auto simp: scan.simps [of fl r adv st] split: list.splits)
    from "1.IH" [OF None r s] r show ?thesis
      by (auto simp: step_def)
  qed
qed

text \<open>
  \<^verbatim>\<open>finditer\<close>: the matches from left to right, each search starting where the
  previous match ended.
\<close>

function finditer_from :: "flags \<Rightarrow> re \<Rightarrow> string \<Rightarrow> nat \<Rightarrow> bool \<Rightarrow> rmatch list" where
  "finditer_from fl r text i must_advance =
     (if length text < i then []
      else (case scan fl r must_advance (cursor_at text i) of
              None \<Rightarrow> []
            | Some m \<Rightarrow> m # finditer_from fl r text (m_end m) (m_end m = m_start m)))"
  by pat_completeness auto
termination
proof (relation "measure (\<lambda>(fl, r, text, i, adv).
    2 * (length text - i) + (if adv then 0 else 1))", goal_cases)
  case 1
  show ?case by simp
next
  case (2 fl r s i adv m)
  from scan_inv [OF 2(2)] 2(1) show ?case
    by (auto simp: cursor_at_def min_def split: if_splits)
qed

declare finditer_from.simps [simp del]

definition finditer :: "flags \<Rightarrow> re \<Rightarrow> string \<Rightarrow> rmatch list" where
  "finditer fl r text = finditer_from fl r text 0 False"

text \<open>\<^verbatim>\<open>re.sub(r, repl, text)\<close> for a replacement without group references: the text
  between the matches, with \<open>repl\<close> in place of each match.\<close>

fun stitch :: "string \<Rightarrow> string \<Rightarrow> nat \<Rightarrow> rmatch list \<Rightarrow> string" where
  "stitch repl text i [] = drop i text"
| "stitch repl text i (m # rs) =
     slice text i (m_start m) @ repl @ stitch repl text (m_end m) rs"

definition re_sub :: "flags \<Rightarrow> re \<Rightarrow> string \<Rightarrow> string \<Rightarrow> string" where
  "re_sub fl r repl text = stitch repl text 0 (finditer fl r text)"

text \<open>\<^verbatim>\<open>re.split(r, text)\<close> for a pattern without groups: the pieces between the
  matches.\<close>

fun pieces :: "string \<Rightarrow> nat \<Rightarrow> rmatch list \<Rightarrow> string list" where
  "pieces text i [] = [drop i text]"
| "pieces text i (m # rs) = slice text i (m_start m) # pieces text (m_end m) rs"

definition re_split :: "flags \<Rightarrow> re \<Rightarrow> string \<Rightarrow> string list" where
  "re_split fl r text = pieces text 0 (finditer fl r text)"

text \<open>Writing patterns: a literal string, \<^verbatim>\<open>r+\<close> and \<^verbatim>\<open>r+?\<close>, a sequence, an
  alternation, and the escapes \<^verbatim>\<open>\s\<close>, \<^verbatim>\<open>\w\<close>, \<^verbatim>\<open>\d\<close>.\<close>

definition str :: "string \<Rightarrow> re" where
  "str s = foldr (\<lambda>c r. Seq (Lit c) r) s Eps"

definition rep1 :: "bool \<Rightarrow> re \<Rightarrow> re" where
  "rep1 greedy r = Seq r (Rep greedy r)"

definition seqs :: "re list \<Rightarrow> re" where
  "seqs rs = foldr Seq rs Eps"

fun alts :: "re list \<Rightarrow> re" where
  "alts [] = Cls False []"
| "alts [r] = r"
| "alts (r # rs) = Alt r (alts rs)"

definition sp :: re where "sp = Cls False [CSpace]"
definition wd :: re where "wd = Cls False [CWord]"
definition dg :: re where "dg = Cls False [CDigit]"


section \<open>patterns.py: \<^verbatim>\<open>PDFPatterns\<close>\<close>

text \<open>\<^verbatim>\<open>TITLE = r'APEX\s+REFERENCE\s+GUIDE'\<close>\<close>

definition TITLE :: re where
  "TITLE = seqs [str ''APEX'', rep1 True sp, str ''REFERENCE'', rep1 True sp, str ''GUIDE'']"

text \<open>\<^verbatim>\<open>MAIN_DESC = r'Apex is a strongly typed.*?(?=\n\n)'\<close>\<close>

definition MAIN_DESC :: re where
  "MAIN_DESC = seqs [str ''Apex is a strongly typed'', Rep False Dot,
     Ahead True (str ''\<newline>\<newline>'')]"

text \<open>\<^verbatim>\<open>[A-Z][a-zA-Z]+\<close>, the identifier of the three heading patterns.\<close>

definition heading_ident :: re where
  "heading_ident = Seq (Cls False [CRange CHR ''A'' CHR ''Z''])
     (rep1 True (Cls False [CRange CHR ''a'' CHR ''z'', CRange CHR ''A'' CHR ''Z'']))"

text \<open>\<^verbatim>\<open>NAMESPACE_START = r'^([A-Z][a-zA-Z]+)\s+Namespace\s*$'\<close>\<close>

definition NAMESPACE_START :: re where
  "NAMESPACE_START = seqs [Bol, Grp 1 heading_ident, rep1 True sp, str ''Namespace'',
     Rep True sp, Eol]"

text \<open>\<^verbatim>\<open>NAMESPACE_DESC = r'(?<=Namespace\n)(.*?)(?=\n\n|\n[A-Z])'\<close>\<close>

definition NAMESPACE_DESC :: re where
  "NAMESPACE_DESC = seqs [Behind ''Namespace\<newline>'', Grp 1 (Rep False Dot),
     Ahead True (Alt (str ''\<newline>\<newline>'')
                     (Seq (Lit CHR ''\<newline>'') (Cls False [CRange CHR ''A'' CHR ''Z''])))]"

text \<open>\<^verbatim>\<open>DML_OPERATION['start'] = r'^([A-Z][a-zA-Z]+)\s+Statement\s*$'\<close>\<close>

definition DML_OPERATION_start :: re where
  "DML_OPERATION_start = seqs [Bol, Grp 1 heading_ident, rep1 True sp, str ''Statement'',
     Rep True sp, Eol]"

text \<open>\<^verbatim>\<open>DML_OPERATION['syntax'] = r'Syntax\s*\n(.*?)(?=\n\n)'\<close>\<close>

definition DML_OPERATION_syntax :: re where
  "DML_OPERATION_syntax = seqs [str ''Syntax'', Rep True sp, Lit CHR ''\<newline>'',
     Grp 1 (Rep False Dot), Ahead True (str ''\<newline>\<newline>'')]"

text \<open>\<^verbatim>\<open>DML_OPERATION['description'] = r'(?<=Statement\n)(.*?)(?=Syntax)'\<close>\<close>

definition DML_OPERATION_description :: re where
  "DML_OPERATION_description = seqs [Behind ''Statement\<newline>'', Grp 1 (Rep False Dot),
     Ahead True (str ''Syntax'')]"

text \<open>\<^verbatim>\<open>DML_OPERATION['example'] = r'Example\s*\n(.*?)(?=\n\n(?:[A-Z]|\Z))'\<close>\<close>

definition DML_OPERATION_example :: re where
  "DML_OPERATION_example = seqs [str ''Example'', Rep True sp, Lit CHR ''\<newline>'',
     Grp 1 (Rep False Dot),
     Ahead True (Seq (str ''\<newline>\<newline>'')
                     (Alt (Cls False [CRange CHR ''A'' CHR ''Z'']) EndZ))]"

text \<open>\<^verbatim>\<open>CLASS_START = r'^([A-Z][a-zA-Z]+)\s+Class\s*$'\<close>\<close>

definition CLASS_START :: re where
  "CLASS_START = seqs [Bol, Grp 1 heading_ident, rep1 True sp, str ''Class'',
     Rep True sp, Eol]"

text \<open>\<^verbatim>\<open>CLASS_DESC = r'Class\s+(.*?)(?=\n(?:IN THIS SECTION:|SEE ALSO:|public|private|protected))'\<close>\<close>

definition CLASS_DESC :: re where
  "CLASS_DESC = seqs [str ''Class'', rep1 True sp, Grp 1 (Rep False Dot),
     Ahead True (Seq (Lit CHR ''\<newline>'')
       (alts [str ''IN THIS SECTION:'', str ''SEE ALSO:'', str ''public'', str ''private'',
              str ''protected'']))]"

text \<open>\<^verbatim>\<open>METHOD_START = r'^(?:public|private|protected)\s+\w+\s+\w+\s*\('\<close>\<close>

definition METHOD_START :: re where
  "METHOD_START = seqs [Bol, alts [str ''public'', str ''private'', str ''protected''],
     rep1 True sp, rep1 True wd, rep1 True sp, rep1 True wd, Rep True sp, Lit CHR ''('']"

text \<open>\<^verbatim>\<open>METHOD_DESC = r'(?:Signature\n.*?\nReturn Value\nType:.*?\n)(.*?)(?=\n(?:Example|Usage|SEE ALSO))'\<close>\<close>

definition METHOD_DESC :: re where
  "METHOD_DESC = seqs [str ''Signature\<newline>'', Rep False Dot,
     str ''\<newline>Return Value\<newline>Type:'', Rep False Dot, Lit CHR ''\<newline>'',
     Grp 1 (Rep False Dot),
     Ahead True (Seq (Lit CHR ''\<newline>'')
       (alts [str ''Example'', str ''Usage'', str ''SEE ALSO'']))]"

text \<open>\<^verbatim>\<open>SECTION_MARKERS\<close>\<close>

definition SECTION_MARKERS :: "string list" where
  "SECTION_MARKERS = [''IN THIS SECTION:'', ''SEE ALSO:'', ''Usage'', ''Example'']"


section \<open>patterns.py: \<^verbatim>\<open>ContentExtractor\<close>\<close>

record method_info =
  method_name :: string
  signature :: string
  method_description :: string
  parameters :: "string list"
  return_type :: string

record class_info =
  class_name :: string
  class_description :: string
  methods :: "method_info list"

record page_range =
  range_start :: int
  range_end :: int

record namespace =
  namespace_name :: string
  namespace_description :: string
  subsections :: "class_info list"
  pageRange :: page_range

record operation =
  operation_name :: string
  operation_description :: string
  syntax_lines :: "string list"
  example :: string

text \<open>
  \<^verbatim>\<open>clean_description\<close>: the three substitutions, in the source's order
  (\<^verbatim>\<open>r'IN THIS SECTION:|SEE ALSO:'\<close>, \<^verbatim>\<open>r'\[PAGE_\d+\]'\<close>, \<^verbatim>\<open>r'\s+'\<close>), then
  \<^verbatim>\<open>strip\<close>.
\<close>

definition MARKERS_RE :: re where
  "MARKERS_RE = Alt (str ''IN THIS SECTION:'') (str ''SEE ALSO:'')"

definition PAGE_RE :: re where
  "PAGE_RE = seqs [str ''[PAGE_'', rep1 True dg, Lit CHR '']'']"

definition clean_description :: "string \<Rightarrow> string" where
  "clean_description text =
     (let text1 = re_sub NOFLAGS MARKERS_RE [] text;
          text2 = re_sub NOFLAGS PAGE_RE [] text1;
          text3 = strip (re_sub NOFLAGS (rep1 True sp) '' '' text2)
      in text3)"

text \<open>
  \<^verbatim>\<open>find_page_range\<close>: \<^verbatim>\<open>r'\[PAGE_(\d+)\]'\<close> and
  \<^verbatim>\<open>r'\[/PAGE_(\d+)\](?!.*\[/PAGE_\d+\])'\<close>, both searched without flags.
\<close>

definition PAGE_OPEN :: re where
  "PAGE_OPEN = seqs [str ''[PAGE_'', Grp 1 (rep1 True dg), Lit CHR '']'']"

definition PAGE_CLOSE_LAST :: re where
  "PAGE_CLOSE_LAST = seqs [str ''[/PAGE_'', Grp 1 (rep1 True dg), Lit CHR '']'',
     Ahead False (seqs [Rep True Dot, str ''[/PAGE_'', rep1 True dg, Lit CHR '']''])]"

definition find_page_range :: "string \<Rightarrow> page_range" where
  "find_page_range content =
     (let start_match = re_search NOFLAGS PAGE_OPEN content;
          end_match = re_search NOFLAGS PAGE_CLOSE_LAST content
      in \<lparr>range_start = (case start_match of
                            Some m \<Rightarrow> int_of_digits (m_group content m 1)
                          | None \<Rightarrow> 0),
          range_end = (case end_match of
                          Some m \<Rightarrow> int_of_digits (m_group content m 1)
                        | None \<Rightarrow> 0)\<rparr>)"

text \<open>
  The content of a section, as each of the four extractors computes it from a heading
  match at \<open>start_pos\<close>:
  \<^verbatim>\<open>next_match = re.search(START, text[start_pos + 1:])\<close>,
  \<^verbatim>\<open>end_pos = next_match.start() + start_pos if next_match else len(text)\<close>,
  \<^verbatim>\<open>content = text[start_pos:end_pos]\<close>. The search takes no flags.
\<close>

definition section_end :: "re \<Rightarrow> string \<Rightarrow> nat \<Rightarrow> nat" where
  "section_end start_re text start_pos =
     (case re_search NOFLAGS start_re (drop (start_pos + 1) text) of
        Some next_match \<Rightarrow> m_start next_match + start_pos
      | None \<Rightarrow> length text)"

definition section_content :: "re \<Rightarrow> string \<Rightarrow> nat \<Rightarrow> string" where
  "section_content start_re text start_pos =
     slice text start_pos (section_end start_re text start_pos)"

text \<open>\<^verbatim>\<open>extract_parameters\<close>: \<^verbatim>\<open>r'\((.*?)\)'\<close>, then \<^verbatim>\<open>split(',')\<close>.\<close>

definition PARAMS_RE :: re where
  "PARAMS_RE = seqs [Lit CHR ''('', Grp 1 (Rep False Dot), Lit CHR '')'']"

definition extract_parameters :: "string \<Rightarrow> string list" where
  "extract_parameters sig =
     (case re_search NOFLAGS PARAMS_RE sig of
        Some param_match \<Rightarrow>
          (let param_str = m_group sig param_match 1
           in if strip param_str \<noteq> [] then map strip (split_chr CHR '','' param_str) else [])
      | None \<Rightarrow> [])"

text \<open>\<^verbatim>\<open>extract_return_type\<close>: \<^verbatim>\<open>r'Return.*?Type:\s*(\w+(?:\.\w+)*)'\<close> under DOTALL.\<close>

definition RETURN_RE :: re where
  "RETURN_RE = seqs [str ''Return'', Rep False Dot, str ''Type:'', Rep True sp,
     Grp 1 (Seq (rep1 True wd) (Rep True (Seq (Lit CHR ''.'') (rep1 True wd))))]"

definition extract_return_type :: "string \<Rightarrow> string" where
  "extract_return_type content =
     (case re_search DOTALL RETURN_RE content of
        Some return_match \<Rightarrow> m_group content return_match 1
      | None \<Rightarrow> [])"

text \<open>\<^verbatim>\<open>extract_methods\<close>; the method name is searched with \<^verbatim>\<open>r'\w+\s*\('\<close>.\<close>

definition NAME_RE :: re where
  "NAME_RE = seqs [rep1 True wd, Rep True sp, Lit CHR ''('']"

definition method_of :: "string \<Rightarrow> rmatch \<Rightarrow> method_info" where
  "method_of text m =
     (let method_content = section_content METHOD_START text (m_start m);
          signature_lines = hd (split_chr CHR ''\<newline>'' method_content)
      in \<lparr>method_name = (case re_search NOFLAGS NAME_RE signature_lines of
                            Some name_match \<Rightarrow> strip (butlast (m_group signature_lines name_match 0))
                          | None \<Rightarrow> []),
          signature = strip signature_lines,
          method_description = (case re_search DOTALL METHOD_DESC method_content of
                                   Some desc_match \<Rightarrow>
                                     clean_description (strip (m_group method_content desc_match 1))
                                 | None \<Rightarrow> []),
          parameters = extract_parameters signature_lines,
          return_type = extract_return_type method_content\<rparr>)"

definition extract_methods :: "string \<Rightarrow> method_info list" where
  "extract_methods text = map (method_of text) (finditer MULTILINE METHOD_START text)"

text \<open>\<^verbatim>\<open>extract_classes\<close>\<close>

definition class_of :: "string \<Rightarrow> rmatch \<Rightarrow> class_info" where
  "class_of text m =
     (let class_content = section_content CLASS_START text (m_start m)
      in \<lparr>class_name = m_group text m 1 @ '' Class'',
          class_description = (case re_search DOTALL CLASS_DESC class_content of
                                  Some desc_match \<Rightarrow>
                                    clean_description (strip (m_group class_content desc_match 1))
                                | None \<Rightarrow> []),
          methods = extract_methods class_content\<rparr>)"

definition extract_classes :: "string \<Rightarrow> class_info list" where
  "extract_classes text = map (class_of text) (finditer MULTILINE CLASS_START text)"

text \<open>\<^verbatim>\<open>extract_namespaces\<close>\<close>

definition namespace_of :: "string \<Rightarrow> rmatch \<Rightarrow> namespace" where
  "namespace_of text m =
     (let content = section_content NAMESPACE_START text (m_start m)
      in \<lparr>namespace_name = m_group text m 1,
          namespace_description = (case re_search DOTALL NAMESPACE_DESC content of
                                      Some desc_match \<Rightarrow>
                                        clean_description (strip (m_group content desc_match 1))
                                    | None \<Rightarrow> []),
          subsections = extract_classes content,
          pageRange = find_page_range content\<rparr>)"

definition extract_namespaces :: "string \<Rightarrow> namespace list" where
  "extract_namespaces text = map (namespace_of text) (finditer MULTILINE NAMESPACE_START text)"

text \<open>\<^verbatim>\<open>extract_dml_operations\<close>; the result dictionary has the one key
  \<^verbatim>\<open>'statements'\<close>, whose list is modelled.\<close>

definition operation_of :: "string \<Rightarrow> rmatch \<Rightarrow> operation" where
  "operation_of text m =
     (let operation_content = section_content DML_OPERATION_start text (m_start m)
      in \<lparr>operation_name = m_group text m 1 @ '' Statement'',
          operation_description =
            (case re_search DOTALL DML_OPERATION_description operation_content of
               Some desc_match \<Rightarrow> strip (m_group operation_content desc_match 1)
             | None \<Rightarrow> []),
          syntax_lines =
            (case re_search DOTALL DML_OPERATION_syntax operation_content of
               Some syntax_match \<Rightarrow>
                 map strip (filter (\<lambda>s. strip s \<noteq> [])
                   (split_chr CHR ''\<newline>'' (m_group operation_content syntax_match 1)))
             | None \<Rightarrow> []),
          example =
            (case re_search DOTALL DML_OPERATION_example operation_content of
               Some example_match \<Rightarrow> strip (m_group operation_content example_match 1)
             | None \<Rightarrow> [])\<rparr>)"

definition extract_dml_operations :: "string \<Rightarrow> operation list" where
  "extract_dml_operations text =
     map (operation_of text) (finditer MULTILINE DML_OPERATION_start text)"


section \<open>processor.py: \<^verbatim>\<open>PDFDocProcessor\<close>\<close>

text \<open>
  The PDF library is outside the program. A document either fails to open or gives its
  pages; extracting a page's text either raises or returns a string or \<^verbatim>\<open>None\<close>.
\<close>

datatype page = PageError | PageText "string option"

datatype pdf = OpenError | Pdf "page list"

text \<open>
  \<^verbatim>\<open>extract_text_from_pdf\<close>: the loop over \<^verbatim>\<open>enumerate(pdf.pages)\<close>, with the page
  index \<open>i\<close>, the text gathered so far and \<^verbatim>\<open>self.current_page\<close>. Any exception is
  caught and gives \<^verbatim>\<open>None\<close>. The result is the text and the value left in
  \<^verbatim>\<open>self.current_page\<close>.
\<close>

fun read_pages :: "page list \<Rightarrow> int \<Rightarrow> string \<Rightarrow> int \<Rightarrow> string option \<times> int" where
  "read_pages [] i all_text current_page = (Some all_text, current_page)"
| "read_pages (PageError # ps) i all_text current_page = (None, i + 1)"
| "read_pages (PageText None # ps) i all_text current_page =
     read_pages ps (i + 1) all_text (i + 1)"
| "read_pages (PageText (Some t) # ps) i all_text current_page =
     (if t \<noteq> []
      then read_pages ps (i + 1)
             (all_text @ ''\<newline>[PAGE_'' @ str_int (i + 1) @ '']\<newline>'' @ t
                @ ''\<newline>[/PAGE_'' @ str_int (i + 1) @ '']\<newline>'')
             (i + 1)
      else read_pages ps (i + 1) all_text (i + 1))"

definition extract_text_from_pdf :: "int \<Rightarrow> pdf \<Rightarrow> string option \<times> int" where
  "extract_text_from_pdf current_page source =
     (case source of
        OpenError \<Rightarrow> (None, current_page)
      | Pdf pages \<Rightarrow> read_pages pages 0 [] current_page)"

record metadata =
  totalPages :: int
  metadata_note :: string

record doc =
  doc_title :: string
  doc_description :: string
  doc_metadata :: metadata
  sections :: "namespace list"
  dmlOperations :: "operation list"

text \<open>The dictionary \<^verbatim>\<open>process_pdf\<close> returns: \<^verbatim>\<open>{}\<close> or the document.\<close>

datatype result = EmptyDict | Document doc

definition process_pdf :: "int \<Rightarrow> pdf \<Rightarrow> result \<times> int" where
  "process_pdf current_page source =
     (case extract_text_from_pdf current_page source of
        (None, cp) \<Rightarrow> (EmptyDict, cp)
      | (Some text, cp) \<Rightarrow>
          if text = [] then (EmptyDict, cp)
          else (Document
                 \<lparr>doc_title = (case re_search NOFLAGS TITLE text of
                                  Some title_match \<Rightarrow> m_group text title_match 0
                                | None \<Rightarrow> []),
                  doc_description = (case re_search DOTALL MAIN_DESC text of
                                        Some desc_match \<Rightarrow> m_group text desc_match 0
                                      | None \<Rightarrow> []),
                  doc_metadata = \<lparr>totalPages = cp,
                    metadata_note = ''In API version 51.0 and earlier, Apex Reference information was included in the Apex Developer Guide''\<rparr>,
                  sections = extract_namespaces text,
                  dmlOperations = extract_dml_operations text\<rparr>, cp))"


section \<open>apex_parser.py: \<^verbatim>\<open>ApexDocParser\<close>\<close>

record ap_method =
  ap_signature :: string
  ap_method_description :: string

record ap_class =
  ap_class_name :: string
  ap_class_description :: string
  ap_methods :: "ap_method list"

record ap_namespace =
  ap_name :: string
  ap_description :: string
  ap_classes :: "ap_class list"

record ap_document =
  ap_title :: string
  ap_doc_description :: string
  ap_namespaces :: "ap_namespace list"

text \<open>\<^verbatim>\<open>namespace_pattern = re.compile(r"^(\w+)\s+Namespace", re.MULTILINE)\<close>\<close>

definition namespace_pattern :: re where
  "namespace_pattern = seqs [Bol, Grp 1 (rep1 True wd), rep1 True sp, str ''Namespace'']"

text \<open>\<^verbatim>\<open>class_pattern = re.compile(r"^(\w+)\s+Class", re.MULTILINE)\<close>\<close>

definition class_pattern :: re where
  "class_pattern = seqs [Bol, Grp 1 (rep1 True wd), rep1 True sp, str ''Class'']"

text \<open>\<^verbatim>\<open>method_pattern = re.compile(r"^(public|private|protected)\s+\w+\s+\w+\(.*\)")\<close>,
  compiled without flags.\<close>

definition method_pattern :: re where
  "method_pattern = seqs [Bol, Grp 1 (alts [str ''public'', str ''private'', str ''protected'']),
     rep1 True sp, rep1 True wd, rep1 True sp, rep1 True wd, Lit CHR ''('', Rep True Dot,
     Lit CHR '')'']"

text \<open>\<^verbatim>\<open>extract_section_description\<close>\<close>

definition extract_section_description :: "string \<Rightarrow> nat \<Rightarrow> string" where
  "extract_section_description text start_pos =
     (case str_find text ''\<newline>\<newline>'' start_pos of
        Some end_pos \<Rightarrow> strip (slice text start_pos end_pos)
      | None \<Rightarrow> strip (drop start_pos text))"

text \<open>
  \<^verbatim>\<open>ApexDocParser.extract_namespaces\<close>. The loop over the class matches appends the
  class and then leaves the loop when a namespace heading is found after the class match.
\<close>

definition ap_method_of :: "string \<Rightarrow> rmatch \<Rightarrow> ap_method" where
  "ap_method_of text method_match =
     \<lparr>ap_signature = m_group text method_match 0,
      ap_method_description = extract_section_description text (m_end method_match)\<rparr>"

definition ap_class_of :: "string \<Rightarrow> rmatch \<Rightarrow> ap_class" where
  "ap_class_of text class_match =
     \<lparr>ap_class_name = m_group text class_match 1,
      ap_class_description = extract_section_description text (m_end class_match),
      ap_methods = map (ap_method_of text)
        (finditer_from NOFLAGS method_pattern text (m_end class_match) False)\<rparr>"

fun ap_classes_loop :: "string \<Rightarrow> rmatch list \<Rightarrow> ap_class list" where
  "ap_classes_loop text [] = []"
| "ap_classes_loop text (class_match # class_matches) =
     ap_class_of text class_match #
       (if search_from MULTILINE namespace_pattern text (m_end class_match) \<noteq> None then []
        else ap_classes_loop text class_matches)"

definition ap_namespace_of :: "string \<Rightarrow> rmatch \<Rightarrow> ap_namespace" where
  "ap_namespace_of text m =
     \<lparr>ap_name = m_group text m 1,
      ap_description = extract_section_description text (m_end m),
      ap_classes = ap_classes_loop text
        (finditer_from MULTILINE class_pattern text (m_end m) False)\<rparr>"

definition ApexDocParser_extract_namespaces :: "string \<Rightarrow> ap_namespace list" where
  "ApexDocParser_extract_namespaces text =
     map (ap_namespace_of text) (finditer MULTILINE namespace_pattern text)"

definition parse_document :: "string \<Rightarrow> ap_document" where
  "parse_document text =
     \<lparr>ap_title = ''Apex Reference Guide'',
      ap_doc_description = ''Extracted Apex content organized by namespaces.'',
      ap_namespaces = ApexDocParser_extract_namespaces text\<rparr>"


section \<open>simpleChunker.py: one paragraph of \<^verbatim>\<open>extract_data\<close>\<close>

text \<open>
  The body of the loop over the paragraphs of a section, which turns one paragraph into
  one content item.
\<close>

record parameter =
  param_type :: string
  param_name :: string

datatype content_item =
    ListItem "string list"
  | CodeItem string
  | MethodItem string string "parameter list" string
  | ParagraphItem string

text \<open>\<^verbatim>\<open>r'(public|global|static)\s+([\w<>\[\]\s]+)\s+(\w+)\s*\((.*)\)'\<close>\<close>

definition SIGNATURE_RE :: re where
  "SIGNATURE_RE = seqs [Grp 1 (alts [str ''public'', str ''global'', str ''static'']),
     rep1 True sp,
     Grp 2 (rep1 True (Cls False [CWord, CChar CHR ''<'', CChar CHR ''>'', CChar CHR ''['',
                                  CChar CHR '']'', CSpace])),
     rep1 True sp, Grp 3 (rep1 True wd), Rep True sp, Lit CHR ''('', Grp 4 (Rep True Dot),
     Lit CHR '')'']"

text \<open>\<^verbatim>\<open>r',\s*(?![^<>\[\]()]*[\])])'\<close>\<close>

definition PARAM_SPLIT_RE :: re where
  "PARAM_SPLIT_RE = seqs [Lit CHR '','', Rep True sp,
     Ahead False
       (Seq (Rep True (Cls True [CChar CHR ''<'', CChar CHR ''>'', CChar CHR ''['', CChar CHR '']'',
                                 CChar CHR ''('', CChar CHR '')'']))
            (Cls False [CChar CHR '']'', CChar CHR '')'']))]"

definition parameter_of :: "string \<Rightarrow> parameter" where
  "parameter_of param =
     (let param_parts = split_chr CHR '' '' (strip param)
      in \<lparr>param_type = join '' '' (butlast param_parts), param_name = last param_parts\<rparr>)"

text \<open>The constructor \<open>MethodItem\<close> takes the name, the signature, the parameters and
  the return type.\<close>

definition content_item_of :: "string \<Rightarrow> content_item" where
  "content_item_of paragraph =
     (if startswith paragraph ''*''
      then ListItem (map (\<lambda>item. drop 2 (strip item))
                         (split_chr CHR ''\<newline>'' (strip paragraph)))
      else if startswith paragraph ''Signature'' then CodeItem (strip paragraph)
      else if contains paragraph ''public '' \<or> contains paragraph ''global ''
              \<or> contains paragraph ''static ''
      then (case re_match NOFLAGS SIGNATURE_RE paragraph of
              Some m \<Rightarrow>
                (let return_type = strip (m_group paragraph m 2);
                     name = m_group paragraph m 3;
                     parameters_str = m_group paragraph m 4
                 in MethodItem name (strip paragraph)
                      (if parameters_str \<noteq> []
                       then map parameter_of (re_split NOFLAGS PARAM_SPLIT_RE parameters_str)
                       else [])
                      return_type)
            | None \<Rightarrow> ParagraphItem (strip paragraph))
      else ParagraphItem (strip paragraph))"


section \<open>Notions used in the statements and proofs\<close>

text \<open>A matcher state moved \<open>k\<close> characters forward.\<close>

definition adv :: "mstate \<Rightarrow> nat \<Rightarrow> mstate" where
  "adv st k = st\<lparr>pos := pos st + k, seen := rev (take k (rest st)) @ seen st,
                 rest := drop k (rest st)\<rparr>"

text \<open>
  The whitespace normal form: every run of whitespace replaced by one space. It is what
  \<^verbatim>\<open>re.sub(r'\s+', ' ', text)\<close> computes (lemma \<open>re_sub_ws\<close>).
\<close>

function collapse :: "string \<Rightarrow> string" where
  "collapse [] = []"
| "collapse (c # cs) =
     (if is_space c then CHR '' '' # collapse (dropWhile is_space cs) else c # collapse cs)"
  by pat_completeness auto
termination
  by (relation "measure length") (auto simp: length_dropWhile_le less_Suc_eq_le)

text \<open>
  A text has a whitespace run when two adjacent characters are whitespace; it has
  whitespace at its ends when its first or last character is whitespace; its whitespace
  is plain when every whitespace character in it is the space character.
\<close>

fun ws_run :: "string \<Rightarrow> bool" where
  "ws_run (a # b # cs) = ((is_space a \<and> is_space b) \<or> ws_run (b # cs))"
| "ws_run [a] = False"
| "ws_run [] = False"

definition ws_at_ends :: "string \<Rightarrow> bool" where
  "ws_at_ends s = (s \<noteq> [] \<and> (is_space (hd s) \<or> is_space (last s)))"

definition only_plain_spaces :: "string \<Rightarrow> bool" where
  "only_plain_spaces s = list_all (\<lambda>c. if is_space c then c = CHR '' '' else True) s"

text \<open>
  An identifier as the heading patterns capture it (\<^verbatim>\<open>[A-Z][a-zA-Z]+\<close>): an upper-case
  letter followed by one or more letters. A matcher state is well-formed for a text when
  it is a position in that text. A pattern is group-free when it has no capturing group
  outside a lookahead. The three heading patterns are one pattern up to the keyword.
\<close>

definition is_letter :: "char \<Rightarrow> bool" where
  "is_letter c = (in_range CHR ''a'' CHR ''z'' c \<or> in_range CHR ''A'' CHR ''Z'' c)"

fun is_ident :: "string \<Rightarrow> bool" where
  "is_ident [] = False"
| "is_ident (c # cs) = (in_range CHR ''A'' CHR ''Z'' c \<and> cs \<noteq> [] \<and> list_all is_letter cs)"

definition wf :: "string \<Rightarrow> mstate \<Rightarrow> bool" where
  "wf t st = (rev (seen st) @ rest st = t \<and> pos st = length (seen st))"

primrec no_grp :: "re \<Rightarrow> bool" where
  "no_grp (Lit c) = True"
| "no_grp Dot = True"
| "no_grp (Cls neg items) = True"
| "no_grp Bol = True"
| "no_grp Eol = True"
| "no_grp EndZ = True"
| "no_grp Eps = True"
| "no_grp (Seq r1 r2) = (no_grp r1 \<and> no_grp r2)"
| "no_grp (Alt r1 r2) = (no_grp r1 \<and> no_grp r2)"
| "no_grp (Rep greedy r) = no_grp r"
| "no_grp (Grp n r) = False"
| "no_grp (Ahead positive r) = True"
| "no_grp (Behind lit) = True"

definition heading_re :: "string \<Rightarrow> re" where
  "heading_re kind = seqs [Bol, Grp 1 heading_ident, rep1 True sp, str kind, Rep True sp, Eol]"

text \<open>A page that contributes text to \<^verbatim>\<open>extract_text_from_pdf\<close>.\<close>

definition has_text :: "page \<Rightarrow> bool" where
  "has_text p = (case p of PageText (Some t) \<Rightarrow> t \<noteq> [] | _ \<Rightarrow> False)"


text \<open>
  The text left when every occurrence found by a left-to-right scan is deleted, where
  \<open>mlen s\<close> is the length of the occurrence that starts \<open>s\<close> and 0 when none does. This
  is what \<^verbatim>\<open>re.sub(pattern, '', text)\<close> computes for the two marker patterns of
  \<^verbatim>\<open>clean_description\<close> (lemmas \<open>sub_markers\<close> and \<open>sub_pages\<close>): \<open>marker_len\<close> is the
  length of a match of \<^verbatim>\<open>IN THIS SECTION:|SEE ALSO:\<close> at the start of a text, and
  \<open>page_len\<close> that of a match of \<^verbatim>\<open>\[PAGE_\d+\]\<close>.
\<close>

function del :: "(string \<Rightarrow> nat) \<Rightarrow> string \<Rightarrow> string" where
  "del mlen [] = []"
| "del mlen (c # cs) =
     (if 0 < mlen (c # cs) then del mlen (drop (mlen (c # cs)) (c # cs))
      else c # del mlen cs)"
  by pat_completeness auto
termination
  by (relation "measure (\<lambda>(mlen, s). length s)") auto

definition marker_len :: "string \<Rightarrow> nat" where
  "marker_len s =
     (if startswith s ''IN THIS SECTION:'' then length ''IN THIS SECTION:''
      else if startswith s ''SEE ALSO:'' then length ''SEE ALSO:''
      else 0)"

definition page_len :: "string \<Rightarrow> nat" where
  "page_len s =
     (let ds = takeWhile is_digit (drop 6 s)
      in if startswith s ''[PAGE_'' \<and> ds \<noteq> [] \<and> startswith (drop (6 + length ds) s) '']''
         then 7 + length ds else 0)"

text \<open>
  A text written as a sequence of tokens: plain text, the section markers
  \<^verbatim>\<open>IN THIS SECTION:\<close> and \<^verbatim>\<open>SEE ALSO:\<close>, and the page marker \<^verbatim>\<open>[PAGE_n]\<close>. The
  tokens are well formed when the plain text holds no colon and no opening bracket and
  every page number is one or more digits, so that every colon and every opening bracket
  of the text belongs to a whole marker. \<open>text_of\<close> is the text, \<open>plain_text\<close> the text
  with the markers left out, and \<open>kept_first\<close> holds of the tokens that the substitution
  of the section markers leaves in place.
\<close>

datatype token = Plain string | InThisSection | SeeAlso | PageMark string

fun render :: "token \<Rightarrow> string" where
  "render (Plain p) = p"
| "render InThisSection = ''IN THIS SECTION:''"
| "render SeeAlso = ''SEE ALSO:''"
| "render (PageMark ds) = ''[PAGE_'' @ ds @ '']''"

fun token_ok :: "token \<Rightarrow> bool" where
  "token_ok (Plain p) = (CHR '':'' \<notin> set p \<and> CHR ''['' \<notin> set p)"
| "token_ok (PageMark ds) = (ds \<noteq> [] \<and> list_all is_digit ds)"
| "token_ok InThisSection = True"
| "token_ok SeeAlso = True"

fun plain :: "token \<Rightarrow> string" where
  "plain (Plain p) = p"
| "plain InThisSection = []"
| "plain SeeAlso = []"
| "plain (PageMark ds) = []"

definition text_of :: "token list \<Rightarrow> string" where
  "text_of toks = concat (map render toks)"

definition plain_text :: "token list \<Rightarrow> string" where
  "plain_text toks = concat (map plain toks)"

fun kept_first :: "token \<Rightarrow> bool" where
  "kept_first (PageMark ds) = True"
| "kept_first (Plain p) = True"
| "kept_first InThisSection = False"
| "kept_first SeeAlso = False"


section \<open>Facts about the matcher\<close>

lemma adv_0 [simp]: "adv st 0 = st"
  by (simp add: adv_def)

lemma adv_fields [simp]:
  "pos (adv st k) = pos st + k"
  "rest (adv st k) = drop k (rest st)"
  "caps (adv st k) = caps st"
  "seen (adv st k) = rev (take k (rest st)) @ seen st"
  by (simp_all add: adv_def)

lemma adv_adv: "adv (adv st j) k = adv st (j + k)"
  by (simp add: adv_def take_add add.commute)

lemma step_adv: "rest st = x # xs \<Longrightarrow> step st x xs = adv st 1"
  by (simp add: step_def adv_def)

lemma take1_adv:
  "take1 ok st = (if rest st \<noteq> [] \<and> ok (hd (rest st)) then [adv st 1] else [])"
  by (cases "rest st") (simp_all add: take1_def step_adv)

lemma rep_lazy_atom:
  assumes atom: "\<And>s. ms fl r s = take1 ok s"
  shows "ms fl (Rep False r) st = map (adv st) [0..<Suc (length (takeWhile ok (rest st)))]"
proof (induction "rest st" arbitrary: st)
  case Nil
  then show ?case
    by (simp add: ms.simps(10) [of fl False r st] atom take1_adv)
next
  case (Cons x xs)
  show ?case
  proof (cases "ok x")
    case False
    with Cons(2) [symmetric] show ?thesis
      by (simp add: ms.simps(10) [of fl False r st] atom take1_adv)
  next
    case True
    have r1: "xs = rest (adv st 1)"
      using Cons(2) [symmetric] by simp
    have "ms fl (Rep False r) st = st # ms fl (Rep False r) (adv st 1)"
      using Cons(2) [symmetric] True
      by (simp add: ms.simps(10) [of fl False r st] atom take1_adv)
    also have "ms fl (Rep False r) (adv st 1)
        = map (adv (adv st 1)) [0..<Suc (length (takeWhile ok xs))]"
      using Cons(1) [OF r1] r1 by simp
    also have "\<dots> = map (\<lambda>k. adv st (Suc k)) [0..<Suc (length (takeWhile ok xs))]"
      by (simp add: adv_adv)
    finally show ?thesis
      using Cons(2) [symmetric] True
      by (simp add: upt_rec [of 0] map_Suc_upt [symmetric] del: upt_Suc)
  qed
qed

lemma rep_greedy_atom:
  assumes atom: "\<And>s. ms fl r s = take1 ok s"
  shows "ms fl (Rep True r) st = map (adv st) (rev [0..<Suc (length (takeWhile ok (rest st)))])"
proof (induction "rest st" arbitrary: st)
  case Nil
  then show ?case
    by (simp add: ms.simps(10) [of fl True r st] atom take1_adv)
next
  case (Cons x xs)
  show ?case
  proof (cases "ok x")
    case False
    with Cons(2) [symmetric] show ?thesis
      by (simp add: ms.simps(10) [of fl True r st] atom take1_adv)
  next
    case True
    have r1: "xs = rest (adv st 1)"
      using Cons(2) [symmetric] by simp
    have "ms fl (Rep True r) st = ms fl (Rep True r) (adv st 1) @ [st]"
      using Cons(2) [symmetric] True
      by (simp add: ms.simps(10) [of fl True r st] atom take1_adv)
    also have "ms fl (Rep True r) (adv st 1)
        = map (adv (adv st 1)) (rev [0..<Suc (length (takeWhile ok xs))])"
      using Cons(1) [OF r1] r1 by simp
    also have "\<dots> = map (\<lambda>k. adv st (Suc k)) (rev [0..<Suc (length (takeWhile ok xs))])"
      by (simp add: adv_adv)
    finally show ?thesis
      using Cons(2) [symmetric] True
      by (simp add: upt_rec [of 0] map_Suc_upt [symmetric] rev_map del: upt_Suc)
  qed
qed

lemma concat_first:
  "j \<le> n \<Longrightarrow> (\<And>k. k < j \<Longrightarrow> f k = []) \<Longrightarrow>
     concat (map f [0..<Suc n]) = f j @ concat (map f [Suc j..<Suc n])"
proof -
  assume j: "j \<le> n" and e: "\<And>k. k < j \<Longrightarrow> f k = []"
  have a: "[0..<Suc n] = [0..<j] @ [j..<Suc n]"
    using j upt_add_eq_append [of 0 j "Suc n - j"] by simp
  have b: "[j..<Suc n] = j # [Suc j..<Suc n]"
    by (rule upt_conv_Cons) (use j in simp)
  have c: "concat (map f [0..<j]) = []"
    using e by simp
  show ?thesis
    unfolding a b by (simp add: c del: upt_Suc)
qed

lemma dot_atom: "ms fl Dot s = take1 (\<lambda>x. dotall fl \<or> x \<noteq> CHR ''\<newline>'') s"
  by simp

lemma ms_Eps_fun: "ms fl Eps = (\<lambda>s. [s])"
  by (simp add: fun_eq_iff)

lemma scan_hit: "first_at fl r a st = Some m \<Longrightarrow> scan fl r a st = Some m"
  by (simp add: scan.simps [of fl r a st])

lemma re_sub_no_match: "re_search fl r t = None \<Longrightarrow> re_sub fl r repl t = t"
  by (simp add: re_search_def re_sub_def finditer_def finditer_from.simps [of fl r t 0 False])


text \<open>A substitution by the empty string, one position at a time: where the pattern does
  not match, the character is kept; where it matches, the scan goes on after the match.\<close>

lemma cursor_step:
  "i < length t \<Longrightarrow> step (cursor_at t i) (t ! i) (drop (Suc i) t) = cursor_at t (Suc i)"
  by (simp add: step_def cursor_at_def take_Suc_conv_app_nth min_def)

lemma scan_miss:
  assumes "i < length t" and "first_at fl r a (cursor_at t i) = None"
  shows "scan fl r a (cursor_at t i) = scan fl r False (cursor_at t (Suc i))"
proof -
  have "rest (cursor_at t i) = t ! i # drop (Suc i) t"
    using assms(1) by (simp add: cursor_at_def Cons_nth_drop_Suc)
  with assms(2) cursor_step [OF assms(1)] show ?thesis
    by (simp add: scan.simps [of fl r a "cursor_at t i"])
qed

lemma sub_miss:
  assumes i: "i < length t" and n: "first_at fl r False (cursor_at t i) = None"
  shows "stitch repl t i (finditer_from fl r t i False)
     = t ! i # stitch repl t (Suc i) (finditer_from fl r t (Suc i) False)"
proof -
  have f: "finditer_from fl r t i False = finditer_from fl r t (Suc i) False"
    using i scan_miss [OF i n]
    by (simp add: finditer_from.simps [of fl r t i False]
        finditer_from.simps [of fl r t "Suc i" False])
  show ?thesis
  proof (cases "scan fl r False (cursor_at t (Suc i))")
    case None
    with i show ?thesis
      unfolding f by (simp add: finditer_from.simps [of fl r t "Suc i" False] Cons_nth_drop_Suc)
  next
    case (Some m)
    from scan_inv [OF Some] i have "Suc i \<le> m_start m"
      by (simp add: cursor_at_def)
    then have "m_start m - i = Suc (m_start m - Suc i)"
      by arith
    then have "slice t i (m_start m) = t ! i # slice t (Suc i) (m_start m)"
      using i by (simp add: slice_def Cons_nth_drop_Suc [symmetric])
    with Some i show ?thesis
      unfolding f by (simp add: finditer_from.simps [of fl r t "Suc i" False])
  qed
qed

lemma sub_hit:
  assumes i: "i \<le> length t" and h: "first_at fl r False (cursor_at t i) = Some m"
    and e: "m_end m \<noteq> i"
  shows "stitch repl t i (finditer_from fl r t i False)
     = repl @ stitch repl t (m_end m) (finditer_from fl r t (m_end m) False)"
proof -
  from first_at_inv [OF h] i have s: "m_start m = i"
    by (simp add: cursor_at_def)
  from scan_hit [OF h] i e s show ?thesis
    by (simp add: finditer_from.simps [of fl r t i False] slice_def)
qed

lemma sub_end:
  assumes "first_at fl r False (cursor_at t (length t)) = None"
  shows "stitch repl t (length t) (finditer_from fl r t (length t) False) = []"
proof -
  have "rest (cursor_at t (length t)) = []"
    by (simp add: cursor_at_def)
  with assms have "scan fl r False (cursor_at t (length t)) = None"
    by (simp add: scan.simps [of fl r False "cursor_at t (length t)"])
  then show ?thesis
    by (simp add: finditer_from.simps [of fl r t "length t" False])
qed

lemma del_hit: "0 < mlen s \<Longrightarrow> del mlen s = del mlen (drop (mlen s) s)"
  by (cases s) simp_all

lemma sub_local:
  assumes hit: "\<And>st. 0 < mlen (rest st) \<Longrightarrow>
      \<exists>m. first_at fl r False st = Some m \<and> m_end m = pos st + mlen (rest st)"
    and miss: "\<And>st. mlen (rest st) = 0 \<Longrightarrow> first_at fl r False st = None"
    and le: "\<And>s. mlen s \<le> length s"
  shows "i \<le> length t \<Longrightarrow>
     stitch [] t i (finditer_from fl r t i False) = del mlen (drop i t)"
proof (induction "length t - i" arbitrary: i rule: less_induct)
  case less
  show ?case
  proof (cases "i = length t")
    case True
    have "mlen (rest (cursor_at t (length t))) = 0"
      using le [of "[]"] by (simp add: cursor_at_def)
    from sub_end [OF miss [OF this]] True show ?thesis
      by simp
  next
    case False
    with less.prems have i: "i < length t"
      by simp
    then have d: "drop i t = t ! i # drop (Suc i) t"
      by (simp add: Cons_nth_drop_Suc)
    show ?thesis
    proof (cases "0 < mlen (drop i t)")
      case False
      then have "mlen (rest (cursor_at t i)) = 0"
        by (simp add: cursor_at_def)
      from sub_miss [OF i miss [OF this]] less.hyps [of "Suc i"] i False show ?thesis
        by (simp add: d [symmetric]) (simp add: d)
    next
      case True
      then have "0 < mlen (rest (cursor_at t i))"
        by (simp add: cursor_at_def)
      from hit [OF this] obtain m where m: "first_at fl r False (cursor_at t i) = Some m"
        and e: "m_end m = i + mlen (drop i t)"
        using i by (auto simp: cursor_at_def)
      have b: "i + mlen (drop i t) \<le> length t"
        using le [of "drop i t"] i by simp
      have "stitch [] t i (finditer_from fl r t i False)
          = stitch [] t (m_end m) (finditer_from fl r t (m_end m) False)"
        using sub_hit [OF less.prems m, of "[]"] e True by simp
      also have "\<dots> = del mlen (drop (i + mlen (drop i t)) t)"
        using less.hyps [of "i + mlen (drop i t)"] b True i unfolding e by simp
      also have "\<dots> = del mlen (drop (mlen (drop i t)) (drop i t))"
        by (simp add: add.commute)
      also have "\<dots> = del mlen (drop i t)"
      proof -
        have "del mlen (t ! i # drop (Suc i) t)
            = del mlen (drop (mlen (t ! i # drop (Suc i) t)) (t ! i # drop (Suc i) t))"
          using True unfolding d by (simp only: del.simps if_True)
        then show ?thesis
          unfolding d by simp
      qed
      finally show ?thesis .
    qed
  qed
qed

lemma re_sub_local:
  assumes "\<And>st. 0 < mlen (rest st) \<Longrightarrow>
      \<exists>m. first_at fl r False st = Some m \<and> m_end m = pos st + mlen (rest st)"
    and "\<And>st. mlen (rest st) = 0 \<Longrightarrow> first_at fl r False st = None"
    and "\<And>s. mlen s \<le> length s"
  shows "re_sub fl r [] t = del mlen t"
  using sub_local [of mlen fl r 0 t, OF assms] by (simp add: re_sub_def finditer_def)

lemma scan_none:
  assumes miss: "\<And>st. mlen (rest st) = 0 \<Longrightarrow> first_at fl r False st = None"
  shows "(\<And>k. mlen (drop k (rest st)) = 0) \<Longrightarrow> scan fl r False st = None"
proof (induction "rest st" arbitrary: st)
  case Nil
  from Nil(2) [of 0] have "first_at fl r False st = None"
    by (intro miss) simp
  with Nil(1) [symmetric] show ?case
    by (simp add: scan.simps [of fl r False st])
next
  case (Cons x xs)
  from Cons(3) [of 0] have f: "first_at fl r False st = None"
    by (intro miss) simp
  have "scan fl r False (step st x xs) = None"
  proof (rule Cons(1))
    show "xs = rest (step st x xs)"
      by (simp add: step_def)
    show "mlen (drop k (rest (step st x xs))) = 0" for k
      using Cons(3) [of "Suc k"] Cons(2) [symmetric] by (simp add: step_def)
  qed
  with f Cons(2) [symmetric] show ?case
    by (simp add: scan.simps [of fl r False st])
qed

text \<open>A literal matches where the text starts with it.\<close>

lemma str_ms:
  "ms fl (str lit) st = (if startswith (rest st) lit then [adv st (length lit)] else [])"
proof (induction lit arbitrary: st)
  case Nil
  then show ?case
    by (simp add: str_def startswith_def)
next
  case (Cons c cs)
  have s: "str (c # cs) = Seq (Lit c) (str cs)"
    by (simp add: str_def)
  show ?case
  proof (cases "rest st")
    case Nil
    then show ?thesis
      by (simp add: s take1_adv startswith_def)
  next
    case (Cons x xs)
    then show ?thesis
      using Cons.IH [of "adv st 1"]
      by (simp add: s take1_adv startswith_def adv_adv)
  qed
qed

lemma first_at_single:
  "ms fl r st = (if 0 < k then [adv st k] else []) \<Longrightarrow>
     first_at fl r False st =
       (if 0 < k then Some \<lparr>m_start = pos st, m_end = pos st + k, m_groups = caps st\<rparr>
        else None)"
  by (simp add: first_at_def)

lemma startswith_length:
  assumes "startswith s p"
  shows "length p \<le> length s"
proof -
  have "length (take (length p) s) = length p"
    using assms by (simp only: startswith_def)
  then show ?thesis
    by simp
qed


section \<open>Section boundaries\<close>

text \<open>
  C1. The boundary scan is stated to give every heading match a span that ends where the
  next match of the same pattern starts (at the end of the text for the last one), so
  that same-category headings get contiguous, non-overlapping spans. The search for the
  next heading is made on \<^verbatim>\<open>text[start_pos + 1:]\<close> without \<^verbatim>\<open>re.MULTILINE\<close>, so \<^verbatim>\<open>^\<close>
  holds only at the first character of that slice and the next heading is not found. On
  two namespace headings at offsets 0 and 15 of a text of length 30 the code ends both
  spans at 30, where the first is stated to end at 15; class headings behave alike. Where
  the search does match, its offset is added to \<^verbatim>\<open>start_pos\<close> without the 1 of the
  slice: the span of the only heading of \<^verbatim>\<open>ABc Namespace\<close> ends at 0, not at 13.
\<close>

theorem section_end_overruns_next_heading:
  "map (\<lambda>m. (m_group ''Aa Namespace\<newline>x\<newline>Bb Namespace\<newline>y\<newline>'' m 1, m_start m,
               section_end NAMESPACE_START
                 ''Aa Namespace\<newline>x\<newline>Bb Namespace\<newline>y\<newline>'' (m_start m)))
       (finditer MULTILINE NAMESPACE_START ''Aa Namespace\<newline>x\<newline>Bb Namespace\<newline>y\<newline>'')
     = [(''Aa'', 0, 30), (''Bb'', 15, 30)]
   \<and> map (\<lambda>m. (m_group ''Aa Class\<newline>x\<newline>Bb Class\<newline>y\<newline>'' m 1, m_start m,
               section_end CLASS_START ''Aa Class\<newline>x\<newline>Bb Class\<newline>y\<newline>'' (m_start m)))
       (finditer MULTILINE CLASS_START ''Aa Class\<newline>x\<newline>Bb Class\<newline>y\<newline>'')
     = [(''Aa'', 0, 22), (''Bb'', 11, 22)]
   \<and> section_end NAMESPACE_START ''ABc Namespace'' 0 = 0"
  by code_simp

text \<open>
  C2. A class heading that follows the second namespace heading is stated never to be
  listed under the first namespace. In \<^verbatim>\<open>ContentExtractor.extract_namespaces\<close> the
  content of the first namespace runs to the end of the text (the span end of C1), and in
  \<^verbatim>\<open>ApexDocParser.extract_namespaces\<close> the class scan starts at the end of the namespace
  heading and is left only after a class has been appended and only when a namespace
  heading follows that class. In both, the class \<open>Cc\<close> after the heading of \<open>Bb\<close> is
  listed under \<open>Aa\<close> as well.
\<close>

theorem later_class_listed_under_earlier_namespace:
  "map (\<lambda>n. (namespace_name n, map class_name (subsections n)))
       (extract_namespaces ''Aa Namespace\<newline>Bb Namespace\<newline>Cc Class\<newline>'')
     = [(''Aa'', [''Cc Class'']), (''Bb'', [''Cc Class''])]
   \<and> map (\<lambda>n. (ap_name n, map ap_class_name (ap_classes n)))
       (ApexDocParser_extract_namespaces ''Aa Namespace\<newline>Bb Namespace\<newline>Cc Class\<newline>'')
     = [(''Aa'', [''Cc'']), (''Bb'', [''Cc''])]"
  by code_simp


section \<open>Signatures\<close>

text \<open>
  C3. The parameter list is stated to be split only at commas outside every bracket, and
  the signature \<^verbatim>\<open>public List<Map<Id, String>> getThing(Integer i, String s)\<close> to give
  the return type \<^verbatim>\<open>List<Map<Id, String>>\<close>, the name \<^verbatim>\<open>getThing\<close> and two typed
  parameters. The signature pattern of \<^verbatim>\<open>extract_data\<close> admits no comma in the return
  type, so that paragraph is not recognised as a method at all; its split pattern keeps a
  comma only when the next bracket after it is \<^verbatim>\<open>]\<close> or \<^verbatim>\<open>)\<close>, so a comma inside
  \<^verbatim>\<open><...>\<close> splits; and \<^verbatim>\<open>extract_parameters\<close> splits at every comma.
\<close>

theorem generic_signature_not_tokenized:
  "content_item_of ''public List<Map<Id, String>> getThing(Integer i, String s)''
     = ParagraphItem ''public List<Map<Id, String>> getThing(Integer i, String s)''
   \<and> content_item_of ''public void f(Map<Id, String> m)''
     = MethodItem ''f'' ''public void f(Map<Id, String> m)''
         [\<lparr>param_type = [], param_name = ''Map<Id''\<rparr>,
          \<lparr>param_type = ''String>'', param_name = ''m''\<rparr>] ''void''
   \<and> extract_parameters ''public void f(Map<Id, String> m)'' = [''Map<Id'', ''String> m'']"
  by code_simp

text \<open>The parameter pattern \<^verbatim>\<open>\((.*?)\)\<close> on a line whose first parenthesis holds only
  whitespace: the scan passes the text before the parenthesis, and the lazy group ends at
  the first closing parenthesis.\<close>

lemma space_not_paren: "is_space c \<Longrightarrow> c \<noteq> CHR '')''"
  by (auto simp: is_space_def in_range_def)

lemma params_body:
  assumes r1: "rest s1 = ws @ CHR '')'' # post"
    and ws: "\<forall>c \<in> set ws. is_space c \<and> c \<noteq> CHR ''\<newline>''"
  shows "\<exists>more. ms NOFLAGS (Seq (Grp 1 (Rep False Dot)) (Seq (Lit CHR '')'') Eps)) s1 =
     adv ((adv s1 (length ws))\<lparr>caps := (1, pos s1, pos (adv s1 (length ws)))
       # caps (adv s1 (length ws))\<rparr>) 1 # more"
proof -
  let ?ok = "\<lambda>x. dotall NOFLAGS \<or> x \<noteq> CHR ''\<newline>''"
  let ?n = "length (takeWhile ?ok (rest s1))"
  let ?g = "\<lambda>k. (adv s1 k)\<lparr>caps := (1, pos s1, pos (adv s1 k)) # caps (adv s1 k)\<rparr>"
  let ?f = "\<lambda>k. take1 (\<lambda>x. x = CHR '')'') (?g k)"
  have "takeWhile ?ok (ws @ CHR '')'' # post) = ws @ takeWhile ?ok (CHR '')'' # post)"
    by (rule takeWhile_append2) (use ws in \<open>auto simp: NOFLAGS_def\<close>)
  then have n: "length ws \<le> ?n"
    unfolding r1 by simp
  have early: "\<And>k. k < length ws \<Longrightarrow> ?f k = []"
  proof -
    fix k
    assume k: "k < length ws"
    then have "hd (drop k (ws @ CHR '')'' # post)) = ws ! k"
      by (simp add: hd_drop_conv_nth nth_append)
    moreover have "ws ! k \<noteq> CHR '')''"
      using ws k space_not_paren by auto
    moreover have "drop k (ws @ CHR '')'' # post) \<noteq> []"
      using k by simp
    ultimately show "?f k = []"
      by (simp add: take1_adv r1)
  qed
  have "drop (length ws) (ws @ CHR '')'' # post) = CHR '')'' # post"
    by simp
  then have at: "?f (length ws) = [adv (?g (length ws)) 1]"
    by (simp add: take1_adv r1)
  have "ms NOFLAGS (Seq (Grp 1 (Rep False Dot)) (Seq (Lit CHR '')'') Eps)) s1
      = concat (map ?f [0..<Suc ?n])"
    by (simp add: rep_lazy_atom [of NOFLAGS Dot ?ok, OF dot_atom] comp_def ms_Eps_fun
        del: upt_Suc)
  also have "\<dots> = ?f (length ws) @ concat (map ?f [Suc (length ws)..<Suc ?n])"
    using concat_first [of "length ws" ?n ?f, OF n early] .
  finally have "ms NOFLAGS (Seq (Grp 1 (Rep False Dot)) (Seq (Lit CHR '')'') Eps)) s1
      = adv (?g (length ws)) 1 # concat (map ?f [Suc (length ws)..<Suc ?n])"
    by (simp only: at append_Cons append_Nil)
  then show ?thesis
    by (rule exI)
qed

lemma params_first_at:
  assumes r: "rest st = CHR ''('' # ws @ CHR '')'' # post"
    and ws: "\<forall>c \<in> set ws. is_space c \<and> c \<noteq> CHR ''\<newline>''"
  shows "first_at NOFLAGS PARAMS_RE False st =
     Some \<lparr>m_start = pos st, m_end = pos st + length ws + 2,
           m_groups = (1, pos st + 1, pos st + 1 + length ws) # caps st\<rparr>"
proof -
  have r1: "rest (adv st 1) = ws @ CHR '')'' # post"
    using r by simp
  from params_body [OF r1 ws] obtain more where
    b: "ms NOFLAGS (Seq (Grp 1 (Rep False Dot)) (Seq (Lit CHR '')'') Eps)) (adv st 1) =
     adv ((adv (adv st 1) (length ws))\<lparr>caps := (1, pos (adv st 1),
        pos (adv (adv st 1) (length ws))) # caps (adv (adv st 1) (length ws))\<rparr>) 1 # more"
    by blast
  have "ms NOFLAGS PARAMS_RE st
      = ms NOFLAGS (Seq (Grp 1 (Rep False Dot)) (Seq (Lit CHR '')'') Eps)) (adv st 1)"
    using r by (simp add: PARAMS_RE_def seqs_def take1_adv [of _ st])
  with b show ?thesis
    by (simp add: first_at_def)
qed

lemma params_skip:
  "rest st = pre @ suf \<Longrightarrow> CHR ''('' \<notin> set pre \<Longrightarrow>
     scan fl PARAMS_RE False st = scan fl PARAMS_RE False (adv st (length pre))"
proof (induction pre arbitrary: st)
  case Nil
  then show ?case by simp
next
  case (Cons x pre)
  have "x \<noteq> CHR ''(''"
    using Cons.prems by auto
  then have "ms fl PARAMS_RE st = []"
    using Cons.prems(1) by (simp add: PARAMS_RE_def seqs_def take1_adv)
  then have "first_at fl PARAMS_RE False st = None"
    by (simp add: first_at_def)
  then have "scan fl PARAMS_RE False st = scan fl PARAMS_RE False (adv st 1)"
    using Cons.prems by (simp add: scan.simps [of fl PARAMS_RE False st] step_adv)
  also have "\<dots> = scan fl PARAMS_RE False (adv (adv st 1) (length pre))"
    using Cons.prems by (intro Cons.IH) simp_all
  finally show ?case
    by (simp add: adv_adv)
qed

lemma strip_blank: "\<forall>c \<in> set ws. is_space c \<Longrightarrow> strip ws = []"
  by (auto simp: strip_def dest: set_dropWhileD)

text \<open>A signature whose first parenthesised part holds only whitespace other than a
  newline: the match of \<^verbatim>\<open>\((.*?)\)\<close> is that part, and the list is empty. \<open>pre\<close> is
  the text before the first opening parenthesis.\<close>

lemma blank_first_parenthesis:
  assumes "CHR ''('' \<notin> set pre"
    and "\<forall>c \<in> set ws. is_space c \<and> c \<noteq> CHR ''\<newline>''"
  shows "extract_parameters (pre @ ''('' @ ws @ '')'' @ post) = []"
proof -
  let ?sig = "pre @ ''('' @ ws @ '')'' @ post"
  let ?st = "adv (cursor_at ?sig 0) (length pre)"
  have c: "rest (cursor_at ?sig 0) = pre @ (''('' @ ws @ '')'' @ post)"
    by (simp add: cursor_at_def)
  have r: "rest ?st = CHR ''('' # ws @ CHR '')'' # post"
    by (simp add: cursor_at_def)
  have "re_search NOFLAGS PARAMS_RE ?sig = scan NOFLAGS PARAMS_RE False ?st"
    unfolding re_search_def using params_skip [OF c assms(1)] .
  also have "\<dots> = Some \<lparr>m_start = length pre, m_end = length pre + length ws + 2,
      m_groups = [(1, length pre + 1, length pre + 1 + length ws)]\<rparr>"
    using scan_hit [OF params_first_at [OF r assms(2)]]
    by (simp add: cursor_at_def)
  finally have m: "re_search NOFLAGS PARAMS_RE ?sig = Some \<lparr>m_start = length pre,
      m_end = length pre + length ws + 2,
      m_groups = [(1, length pre + 1, length pre + 1 + length ws)]\<rparr>" .
  have "slice ?sig (length pre + 1) (length pre + 1 + length ws) = ws"
    by (simp add: slice_def)
  with m assms(2) show ?thesis
    by (simp add: extract_parameters_def m_group_def strip_blank)
qed

text \<open>The first line of a text holds no newline.\<close>

lemma first_line_no_newline: "c \<notin> set (hd (split_chr c s))"
  by (induction s) (auto split: list.splits)

text \<open>
  C9, as the code has it. For a signature whose first parenthesised part is empty or holds
  only whitespace other than a newline, \<^verbatim>\<open>extract_parameters\<close> returns the empty list,
  not a list with an empty token. The signature that \<^verbatim>\<open>extract_methods\<close> passes is the
  first line of the method content, which holds no newline: for every method whose
  signature line has a blank first parenthesised part, the parameters are the empty list.
  \<open>pre\<close> is the text before the first opening parenthesis.
\<close>

theorem blank_parameter_list_gives_no_parameters:
  "(CHR ''('' \<notin> set pre \<and> (\<forall>c \<in> set ws. is_space c \<and> c \<noteq> CHR ''\<newline>'') \<longrightarrow>
      extract_parameters (pre @ ''('' @ ws @ '')'' @ post) = [])
   \<and> (hd (split_chr CHR ''\<newline>'' (section_content METHOD_START t (m_start m)))
          = pre' @ ''('' @ ws' @ '')'' @ post'
        \<and> CHR ''('' \<notin> set pre' \<and> (\<forall>c \<in> set ws'. is_space c) \<longrightarrow>
      parameters (method_of t m) = [])"
proof (intro conjI impI)
  assume "CHR ''('' \<notin> set pre \<and> (\<forall>c \<in> set ws. is_space c \<and> c \<noteq> CHR ''\<newline>'')"
  then show "extract_parameters (pre @ ''('' @ ws @ '')'' @ post) = []"
    using blank_first_parenthesis [of pre ws post] by blast
next
  let ?line = "hd (split_chr CHR ''\<newline>'' (section_content METHOD_START t (m_start m)))"
  assume a: "?line = pre' @ ''('' @ ws' @ '')'' @ post'
      \<and> CHR ''('' \<notin> set pre' \<and> (\<forall>c \<in> set ws'. is_space c)"
  have "CHR ''\<newline>'' \<notin> set ?line"
    by (rule first_line_no_newline)
  with a have "\<forall>c \<in> set ws'. is_space c \<and> c \<noteq> CHR ''\<newline>''"
    by auto
  with a have "extract_parameters ?line = []"
    using blank_first_parenthesis [of pre' ws' post'] by simp
  then show "parameters (method_of t m) = []"
    by (simp add: method_of_def Let_def)
qed

text \<open>C9's amended statement at the signature \<^verbatim>\<open>public void run(  ) and (a, b)\<close> and at
  the method that \<^verbatim>\<open>extract_methods\<close> finds in a text of two lines.\<close>

theorem blank_parameter_list_witness:
  "extract_parameters ''public void run(  ) and (a, b)'' = []
   \<and> finditer MULTILINE METHOD_START ''public void run(  )\<newline>more (a, b)''
       = [\<lparr>m_start = 0, m_end = 16, m_groups = []\<rparr>]
   \<and> map parameters (extract_methods ''public void run(  )\<newline>more (a, b)'') = [[]]"
proof -
  let ?t = "''public void run(  )\<newline>more (a, b)''"
  let ?m = "\<lparr>m_start = 0, m_end = 16, m_groups = []\<rparr>"
  have a: "CHR ''('' \<notin> set ''public void run''"
    by simp
  have b: "\<forall>c \<in> set ''  ''. is_space c \<and> c \<noteq> CHR ''\<newline>''"
    by (simp add: is_space_def in_range_def)
  have f: "finditer MULTILINE METHOD_START ?t = [?m]"
    by code_simp
  have l: "hd (split_chr CHR ''\<newline>'' (section_content METHOD_START ?t (m_start ?m)))
      = ''public void run'' @ ''('' @ ''  '' @ '')'' @ []"
    by code_simp
  note inst = blank_parameter_list_gives_no_parameters
    [of "''public void run''" "''  ''" "'' and (a, b)''" ?t ?m "''public void run''" "''  ''" "[]"]
  from inst a b have e1: "extract_parameters (''public void run'' @ ''('' @ ''  '' @ '')'' @ '' and (a, b)'') = []"
    by blast
  from inst a b l have e2: "parameters (method_of ?t ?m) = []"
    by blast
  from e1 have e1': "extract_parameters ''public void run(  ) and (a, b)'' = []"
    by simp
  from e2 f have e3: "map parameters (extract_methods ?t) = [[]]"
    by (simp only: extract_methods_def list.map)
  from e1' f e3 show ?thesis
    by (intro conjI)
qed

text \<open>
  C9 as stated fails: \<^verbatim>\<open>.\<close> takes no newline, so when the first parenthesised part
  holds a newline the pattern matches a later parenthesis, whose content gives the
  parameter \<open>a\<close>, or two empty tokens.
\<close>

theorem newline_in_blank_parameter_list:
  "extract_parameters ''f(\<newline>) g(a)'' = [''a'']
   \<and> extract_parameters ''f(\<newline>)( , )'' = ['''', '''']"
  by code_simp


section \<open>Page ranges\<close>

text \<open>
  C4. The page range of a span is stated to start at the first page-open marker and to
  end at the last page-close marker of the span. The lookahead that rejects a close
  marker followed by another one uses \<^verbatim>\<open>.*\<close> without \<^verbatim>\<open>re.DOTALL\<close>, so it looks no
  further than the end of the line; with each marker on a line of its own, as
  \<^verbatim>\<open>extract_text_from_pdf\<close> writes them, the end is the first close marker. On the
  text of two pages the code gives the end 1, where the last close marker is that of
  page 2.
\<close>

theorem page_range_end_is_first_close_marker:
  "fst (extract_text_from_pdf 0 (Pdf [PageText (Some ''foo''), PageText (Some ''bar'')]))
     = Some ''\<newline>[PAGE_1]\<newline>foo\<newline>[/PAGE_1]\<newline>\<newline>[PAGE_2]\<newline>bar\<newline>[/PAGE_2]\<newline>''
   \<and> find_page_range
       ''\<newline>[PAGE_1]\<newline>foo\<newline>[/PAGE_1]\<newline>\<newline>[PAGE_2]\<newline>bar\<newline>[/PAGE_2]\<newline>''
     = \<lparr>range_start = 1, range_end = 1\<rparr>"
  by code_simp


section \<open>Descriptions\<close>

lemma find_in_shift: "find_in sub s i = map_option (\<lambda>k. k + i) (find_in sub s 0)"
proof (induction s arbitrary: i)
  case Nil
  then show ?case by simp
next
  case (Cons x xs)
  from Cons [of "Suc i"] Cons [of "Suc 0"] show ?case
    by (cases "find_in sub xs 0") auto
qed

lemma find_in_absent: "\<not> contains s sub \<Longrightarrow> find_in sub s i = None"
  using find_in_shift [of sub s i] by (simp add: contains_def)

lemma blank_line_start:
  "startswith (x # xs @ ''\<newline>\<newline>'' @ post) ''\<newline>\<newline>''
     = startswith ((x # xs) @ ''\<newline>'') ''\<newline>\<newline>''"
  by (cases xs) (auto simp: startswith_def)

lemma find_blank_line:
  "\<not> contains (body @ ''\<newline>'') ''\<newline>\<newline>'' \<Longrightarrow>
     find_in ''\<newline>\<newline>'' (body @ ''\<newline>\<newline>'' @ post) i = Some (i + length body)"
proof (induction body arbitrary: i)
  case Nil
  then show ?case by (simp add: startswith_def)
next
  case (Cons x xs)
  from Cons.prems have n: "\<not> startswith ((x # xs) @ ''\<newline>'') ''\<newline>\<newline>''"
    and r: "find_in ''\<newline>\<newline>'' (xs @ ''\<newline>'') (Suc 0) = None"
    by (auto simp: contains_def split: if_splits)
  from r have "\<not> contains (xs @ ''\<newline>'') ''\<newline>\<newline>''"
    using find_in_shift [of "''\<newline>\<newline>''" "xs @ ''\<newline>''" "Suc 0"] by (simp add: contains_def)
  from Cons.IH [OF this, of "Suc i"] n show ?case
    using blank_line_start [of x xs post] by simp
qed

text \<open>
  What \<^verbatim>\<open>extract_section_description\<close> computes from the offset \<open>length pre\<close>: the
  trimmed text up to the first blank line (two consecutive newlines) at or after that
  offset, and the trimmed rest of the text when no blank line follows.
\<close>

lemma section_description_ends_at_blank_line:
  "(\<not> contains (body @ ''\<newline>'') ''\<newline>\<newline>'' \<longrightarrow>
      extract_section_description (pre @ body @ ''\<newline>\<newline>'' @ post) (length pre) = strip body)
   \<and> (\<not> contains rest_text ''\<newline>\<newline>'' \<longrightarrow>
      extract_section_description (pre @ rest_text) (length pre) = strip rest_text)"
proof (intro conjI impI)
  assume "\<not> contains (body @ ''\<newline>'') ''\<newline>\<newline>''"
  from find_blank_line [OF this, of post "length pre"]
  show "extract_section_description (pre @ body @ ''\<newline>\<newline>'' @ post) (length pre) = strip body"
    by (simp add: extract_section_description_def str_find_def slice_def)
next
  assume "\<not> contains rest_text ''\<newline>\<newline>''"
  from find_in_absent [OF this, of "length pre"]
  show "extract_section_description (pre @ rest_text) (length pre) = strip rest_text"
    by (simp add: extract_section_description_def str_find_def)
qed

text \<open>
  C5. The description is stated to end at the first blank line or section-marker keyword
  after the heading, whichever comes first. \<^verbatim>\<open>ApexDocParser.extract_section_description\<close>
  searches for the blank line only. For the namespace \<open>Sys\<close>, whose first paragraph holds
  \<^verbatim>\<open>SEE ALSO:\<close>, it returns the paragraph with the marker and what follows it, where
  \<^verbatim>\<open>ContentExtractor\<close> ends the description of the same text before the marker; the
  two differ in the same way on the class \<open>Aa\<close>. The class pattern \<^verbatim>\<open>CLASS_DESC\<close> of
  \<^verbatim>\<open>ContentExtractor\<close> in turn ends at a keyword only, and runs past the blank line
  after \<open>foo\<close>. \<^verbatim>\<open>ApexDocParser\<close> also starts the description at the end of the heading
  match, not of the heading line: after the line \<^verbatim>\<open>Aa Namespaces\<close> it starts with \<open>s\<close>.
\<close>

theorem apex_description_runs_past_section_marker:
  "map ap_description
     (ApexDocParser_extract_namespaces ''Sys Namespace\<newline>foo\<newline>SEE ALSO: bar\<newline>\<newline>rest'')
     = [''foo\<newline>SEE ALSO: bar'']
   \<and> map namespace_description
     (extract_namespaces ''Sys Namespace\<newline>foo\<newline>SEE ALSO: bar\<newline>\<newline>rest'')
     = [''foo'']
   \<and> map (\<lambda>n. map ap_class_description (ap_classes n))
     (ApexDocParser_extract_namespaces
        ''Sys Namespace\<newline>\<newline>Aa Class\<newline>foo\<newline>SEE ALSO: Bb\<newline>\<newline>bar'')
     = [[''foo\<newline>SEE ALSO: Bb'']]
   \<and> map class_description
     (extract_classes ''Sys Namespace\<newline>\<newline>Aa Class\<newline>foo\<newline>SEE ALSO: Bb\<newline>\<newline>bar'')
     = [''foo'']
   \<and> map class_description (extract_classes ''Aa Class\<newline>foo\<newline>\<newline>bar\<newline>public'')
     = [''foo bar'']
   \<and> map ap_description (ApexDocParser_extract_namespaces ''Aa Namespaces\<newline>foo'')
     = [''s\<newline>foo'']"
  by code_simp


section \<open>Description cleaning\<close>

text \<open>The substitution of \<^verbatim>\<open>\s+\<close> by one space computes the whitespace normal form.\<close>

lemma sp_atom: "ms fl sp s = take1 is_space s"
proof -
  have "cls_has False [CSpace] = is_space"
    by (auto simp: cls_has_def fun_eq_iff)
  then show ?thesis
    by (simp add: sp_def)
qed

lemma ws_ms:
  "ms fl (rep1 True sp) st =
     (if rest st \<noteq> [] \<and> is_space (hd (rest st))
      then map (adv st) (rev [1..<Suc (length (takeWhile is_space (rest st)))])
      else [])"
proof (cases "rest st \<noteq> [] \<and> is_space (hd (rest st))")
  case False
  then show ?thesis
    by (auto simp: rep1_def sp_atom take1_adv)
next
  case True
  then obtain x xs where r: "rest st = x # xs" and x: "is_space x"
    by (cases "rest st") auto
  have "ms fl (rep1 True sp) st = ms fl (Rep True sp) (adv st 1)"
    using r x by (simp add: rep1_def sp_atom take1_adv)
  also have "\<dots> = map (adv (adv st 1)) (rev [0..<Suc (length (takeWhile is_space xs))])"
    using rep_greedy_atom [of fl sp is_space "adv st 1", OF sp_atom] r by simp
  also have "\<dots> = map (\<lambda>k. adv st (Suc k)) (rev [0..<Suc (length (takeWhile is_space xs))])"
    by (simp add: adv_adv)
  also have "\<dots> = map (adv st) (rev [1..<Suc (Suc (length (takeWhile is_space xs)))])"
    by (simp add: map_Suc_upt [symmetric] rev_map del: upt_Suc)
  finally show ?thesis
    using r x by simp
qed

lemma ws_first_at:
  "first_at fl (rep1 True sp) must st =
     (if rest st \<noteq> [] \<and> is_space (hd (rest st))
      then Some \<lparr>m_start = pos st, m_end = pos st + length (takeWhile is_space (rest st)),
                  m_groups = caps st\<rparr>
      else None)"
proof (cases "rest st \<noteq> [] \<and> is_space (hd (rest st))")
  case False
  then show ?thesis
    by (auto simp: first_at_def ws_ms)
next
  case True
  then obtain x xs where r: "rest st = x # xs" and x: "is_space x"
    by (cases "rest st") auto
  let ?n = "length (takeWhile is_space xs)"
  have "filter (\<lambda>st'. if must then pos st' \<noteq> pos st else True)
          (map (adv st) (rev [1..<Suc (Suc ?n)])) = map (adv st) (rev [1..<Suc (Suc ?n)])"
    by (rule filter_True) auto
  moreover have "rev [1..<Suc (Suc ?n)] = Suc ?n # rev [1..<Suc ?n]"
    by simp
  ultimately show ?thesis
    using r x by (simp add: first_at_def ws_ms del: upt_Suc)
qed

lemma ws_scan:
  "scan fl (rep1 True sp) False st =
     (if dropWhile (\<lambda>c. \<not> is_space c) (rest st) = [] then None
      else Some \<lparr>m_start = pos st + length (takeWhile (\<lambda>c. \<not> is_space c) (rest st)),
                 m_end = pos st + length (takeWhile (\<lambda>c. \<not> is_space c) (rest st))
                   + length (takeWhile is_space (dropWhile (\<lambda>c. \<not> is_space c) (rest st))),
                 m_groups = caps st\<rparr>)"
proof (induction "rest st" arbitrary: st)
  case Nil
  then show ?case
    by (simp add: scan.simps [of fl _ False st] ws_first_at)
next
  case (Cons x xs)
  show ?case
  proof (cases "is_space x")
    case True
    with Cons(2) [symmetric] show ?thesis
      by (simp add: scan.simps [of fl _ False st] ws_first_at)
  next
    case False
    have r1: "xs = rest (adv st 1)"
      using Cons(2) [symmetric] by simp
    have "scan fl (rep1 True sp) False st = scan fl (rep1 True sp) False (adv st 1)"
      using Cons(2) [symmetric] False
      by (simp add: scan.simps [of fl _ False st] ws_first_at step_adv)
    with Cons(1) [OF r1] r1 [symmetric] Cons(2) [symmetric] False show ?thesis
      by simp
  qed
qed

lemma collapse_nonspace: "\<forall>c \<in> set u. \<not> is_space c \<Longrightarrow> collapse (u @ d) = u @ collapse d"
  by (induction u) auto

lemma collapse_space: "d \<noteq> [] \<Longrightarrow> is_space (hd d) \<Longrightarrow>
    collapse d = CHR '' '' # collapse (dropWhile is_space d)"
  by (cases d) auto

lemma ws_sub_from:
  "i \<le> length t \<Longrightarrow>
     stitch '' '' t i (finditer_from fl (rep1 True sp) t i False) = collapse (drop i t)"
proof (induction "length t - i" arbitrary: i rule: less_induct)
  case less
  let ?d = "drop i t"
  let ?u = "takeWhile (\<lambda>c. \<not> is_space c) ?d"
  let ?v = "dropWhile (\<lambda>c. \<not> is_space c) ?d"
  let ?w = "takeWhile is_space ?v"
  have cur: "pos (cursor_at t i) = i" "rest (cursor_at t i) = ?d"
    "caps (cursor_at t i) = []"
    using less.prems by (simp_all add: cursor_at_def)
  show ?case
  proof (cases "?v = []")
    case True
    then have "\<forall>c \<in> set ?d. \<not> is_space c"
      by (simp add: dropWhile_eq_Nil_conv)
    then have "collapse ?d = ?d"
      using collapse_nonspace [of ?d "[]"] by simp
    with True less.prems show ?thesis
      by (simp add: finditer_from.simps [of fl _ t i False] ws_scan cur)
  next
    case False
    then have hv: "is_space (hd ?v)"
      using hd_dropWhile [of "\<lambda>c. \<not> is_space c" ?d] by simp
    then have w1: "1 \<le> length ?w"
      using False by (cases ?v) auto
    have wne: "?w \<noteq> []"
      using w1 by auto
    let ?e = "i + length ?u + length ?w"
    have ud: "?d = ?u @ ?v"
      by simp
    have wv: "?v = ?w @ dropWhile is_space ?v"
      by simp
    have "length ?d = length ?u + length ?v"
      by (metis ud length_append)
    moreover have "length ?w \<le> length ?v"
      by (simp add: length_takeWhile_le)
    ultimately have e_le: "?e \<le> length t"
      using less.prems by simp
    have dr: "drop ?e t = dropWhile is_space ?v"
    proof -
      have "drop ?e t = drop (length ?w) (drop (length ?u) ?d)"
        by (simp add: add.commute add.left_commute)
      also have "drop (length ?u) ?d = ?v"
        by (metis ud append_eq_conv_conj)
      also have "drop (length ?w) ?v = dropWhile is_space ?v"
        by (metis wv append_eq_conv_conj)
      finally show ?thesis .
    qed
    have sl: "slice t i (i + length ?u) = ?u"
      by (simp add: slice_def) (metis ud append_eq_conv_conj)
    have ih: "stitch '' '' t ?e (finditer_from fl (rep1 True sp) t ?e False)
        = collapse (drop ?e t)"
      using less.hyps [of ?e] e_le w1 less.prems by simp
    have "finditer_from fl (rep1 True sp) t i False
        = \<lparr>m_start = i + length ?u, m_end = ?e, m_groups = []\<rparr>
            # finditer_from fl (rep1 True sp) t ?e False"
      using False less.prems wne
      by (simp add: finditer_from.simps [of fl _ t i False] ws_scan cur)
    then have "stitch '' '' t i (finditer_from fl (rep1 True sp) t i False)
        = ?u @ '' '' @ collapse (dropWhile is_space ?v)"
      using ih dr sl by simp
    also have "\<dots> = collapse ?d"
    proof -
      have "\<forall>c \<in> set ?u. \<not> is_space c"
        by (auto dest: set_takeWhileD)
      from collapse_nonspace [OF this, of ?v] collapse_space [OF False hv] show ?thesis
        by simp
    qed
    finally show ?thesis .
  qed
qed

lemma re_sub_ws: "re_sub fl (rep1 True sp) '' '' t = collapse t"
  using ws_sub_from [of 0 t fl] by (simp add: re_sub_def finditer_def)

lemma ws_run_Cons:
  "ws_run (a # s) = ((s \<noteq> [] \<and> is_space a \<and> is_space (hd s)) \<or> ws_run s)"
  by (cases s) auto

lemma ws_run_append:
  "ws_run (xs @ ys) =
     (ws_run xs \<or> ws_run ys \<or> (xs \<noteq> [] \<and> ys \<noteq> [] \<and> is_space (last xs) \<and> is_space (hd ys)))"
proof (induction xs)
  case Nil
  then show ?case by simp
next
  case (Cons a xs)
  show ?case
  proof (cases "xs = []")
    case True
    then show ?thesis by (auto simp: ws_run_Cons)
  next
    case False
    then have "hd (xs @ ys) = hd xs" by simp
    with Cons False show ?thesis
      by (auto simp: ws_run_Cons)
  qed
qed

lemma ws_run_rev: "ws_run (rev s) = ws_run s"
proof (induction s)
  case Nil
  then show ?case by simp
next
  case (Cons a s)
  then show ?case
    by (cases "s = []") (auto simp: ws_run_append ws_run_Cons last_rev hd_rev)
qed

lemma ws_run_dropWhile: "\<not> ws_run s \<Longrightarrow> \<not> ws_run (dropWhile P s)"
proof -
  assume a: "\<not> ws_run s"
  have "s = takeWhile P s @ dropWhile P s" by simp
  then have "ws_run (dropWhile P s) \<Longrightarrow> ws_run s"
    by (metis ws_run_append)
  with a show ?thesis by blast
qed

lemma strip_no_run: "\<not> ws_run s \<Longrightarrow> \<not> ws_run (strip s)"
  by (simp add: strip_def ws_run_rev ws_run_dropWhile)

lemma strip_ends: "\<not> ws_at_ends (strip s)"
proof (cases "strip s = []")
  case True
  then show ?thesis by (simp add: ws_at_ends_def)
next
  case False
  let ?s' = "dropWhile is_space s"
  let ?X = "dropWhile is_space (rev ?s')"
  have X: "?X \<noteq> []" and st: "strip s = rev ?X"
    using False by (simp_all add: strip_def)
  have s': "?s' \<noteq> []"
    using X by (metis dropWhile.simps(1) rev.simps(1))
  have l: "\<not> is_space (last (strip s))"
    using X hd_dropWhile [of is_space "rev ?s'"] by (simp add: st last_rev)
  have "rev ?s' = takeWhile is_space (rev ?s') @ ?X"
    by simp
  then have "last (rev ?s') = last ?X"
    using X by (metis last_appendR)
  then have "hd (strip s) = hd ?s'"
    using X s' by (simp add: st hd_rev last_rev)
  moreover have "\<not> is_space (hd ?s')"
    using s' hd_dropWhile [of is_space s] by simp
  ultimately show ?thesis
    using l by (simp add: ws_at_ends_def)
qed

lemma strip_plain: "only_plain_spaces s \<Longrightarrow> only_plain_spaces (strip s)"
proof -
  assume a: "only_plain_spaces s"
  have "set (strip s) \<subseteq> set s"
  proof
    fix x
    assume "x \<in> set (strip s)"
    then have "x \<in> set (rev (dropWhile is_space s))"
      unfolding strip_def by (metis set_dropWhileD set_rev)
    then show "x \<in> set s"
      by (metis set_dropWhileD set_rev)
  qed
  with a show ?thesis
    by (auto simp: only_plain_spaces_def list_all_iff)
qed

lemma collapse_hd:
  "s \<noteq> [] \<Longrightarrow> \<not> is_space (hd s) \<Longrightarrow> collapse s \<noteq> [] \<and> hd (collapse s) = hd s"
  by (cases s) auto

lemma collapse_normal: "\<not> ws_run (collapse s) \<and> only_plain_spaces (collapse s)"
proof (induction s rule: collapse.induct)
  case 1
  then show ?case by (simp add: only_plain_spaces_def)
next
  case (2 c cs)
  show ?case
  proof (cases "is_space c")
    case False
    with 2(2) show ?thesis
      by (cases "cs = []") (auto simp: ws_run_Cons only_plain_spaces_def collapse_hd)
  next
    case True
    let ?r = "dropWhile is_space cs"
    have sp: "is_space CHR '' ''"
      by (simp add: is_space_def in_range_def)
    have c: "collapse (c # cs) = CHR '' '' # collapse ?r"
      using True by simp
    show ?thesis
    proof (cases "?r = []")
      case e: True
      have "collapse ?r = []"
        by (simp only: e collapse.simps)
      with c show ?thesis
        by (simp add: only_plain_spaces_def sp)
    next
      case ne: False
      have "\<not> is_space (hd ?r)"
        using ne by (rule hd_dropWhile)
      with collapse_hd [OF ne]
      have "collapse ?r \<noteq> []" "\<not> is_space (hd (collapse ?r))"
        by simp_all
      with 2(1) [OF True] show ?thesis
        unfolding c by (simp add: ws_run_Cons only_plain_spaces_def)
    qed
  qed
qed

lemma collapse_fixed:
  "\<not> ws_run s \<Longrightarrow> only_plain_spaces s \<Longrightarrow> collapse s = s"
proof (induction s)
  case Nil
  then show ?case by simp
next
  case (Cons c cs)
  then have ih: "collapse cs = cs"
    by (simp add: ws_run_Cons only_plain_spaces_def)
  show ?case
  proof (cases "is_space c")
    case False
    with ih show ?thesis by simp
  next
    case True
    with Cons.prems have c: "c = CHR '' ''" and n: "cs = [] \<or> \<not> is_space (hd cs)"
      by (auto simp: ws_run_Cons only_plain_spaces_def)
    from n have "dropWhile is_space cs = cs"
      by (cases cs) auto
    with True c ih show ?thesis by simp
  qed
qed

lemma strip_fixed: "\<not> ws_at_ends s \<Longrightarrow> strip s = s"
proof (cases "s = []")
  case True
  then show ?thesis by (simp add: strip_def)
next
  case False
  assume "\<not> ws_at_ends s"
  with False have h: "\<not> is_space (hd s)" and l: "\<not> is_space (last s)"
    by (auto simp: ws_at_ends_def)
  from h False have "dropWhile is_space s = s"
    by (cases s) auto
  moreover from l False have "dropWhile is_space (rev s) = rev s"
    by (cases "rev s") (auto simp: last_rev [symmetric] hd_rev)
  ultimately show ?thesis
    by (simp add: strip_def)
qed

text \<open>The cleaned description is in whitespace normal form.\<close>

lemma clean_whitespace_normal:
  "\<not> ws_run (clean_description t) \<and> \<not> ws_at_ends (clean_description t)
   \<and> only_plain_spaces (clean_description t)"
  by (simp add: clean_description_def re_sub_ws strip_no_run strip_ends strip_plain
      collapse_normal)

text \<open>The two marker substitutions delete the matches found from left to right: a match
  of the first pattern is one of its two literals, a match of the second is
  \<^verbatim>\<open>[PAGE_\<close>, the longest run of digits, and the closing bracket.\<close>

lemma markers_ms:
  "ms fl MARKERS_RE st =
     (if 0 < marker_len (rest st) then [adv st (marker_len (rest st))] else [])"
proof -
  have "\<not> (startswith s ''IN THIS SECTION:'' \<and> startswith s ''SEE ALSO:'')" for s
    by (cases s) (auto simp: startswith_def)
  then show ?thesis
    by (auto simp: MARKERS_RE_def str_ms marker_len_def)
qed

lemma dg_atom: "ms fl dg s = take1 is_digit s"
proof -
  have "cls_has False [CDigit] = is_digit"
    by (auto simp: cls_has_def fun_eq_iff)
  then show ?thesis
    by (simp add: dg_def)
qed

lemma digits_ms:
  "ms fl (rep1 True dg) st =
     (if rest st \<noteq> [] \<and> is_digit (hd (rest st))
      then map (adv st) (rev [1..<Suc (length (takeWhile is_digit (rest st)))])
      else [])"
proof (cases "rest st \<noteq> [] \<and> is_digit (hd (rest st))")
  case False
  then show ?thesis
    by (auto simp: rep1_def dg_atom take1_adv)
next
  case True
  then obtain x xs where r: "rest st = x # xs" and x: "is_digit x"
    by (cases "rest st") auto
  have "ms fl (rep1 True dg) st = ms fl (Rep True dg) (adv st 1)"
    using r x by (simp add: rep1_def dg_atom take1_adv)
  also have "\<dots> = map (adv (adv st 1)) (rev [0..<Suc (length (takeWhile is_digit xs))])"
    using rep_greedy_atom [of fl dg is_digit "adv st 1", OF dg_atom] r by simp
  also have "\<dots> = map (\<lambda>k. adv st (Suc k)) (rev [0..<Suc (length (takeWhile is_digit xs))])"
    by (simp add: adv_adv)
  also have "\<dots> = map (adv st) (rev [1..<Suc (Suc (length (takeWhile is_digit xs)))])"
    by (simp add: map_Suc_upt [symmetric] rev_map del: upt_Suc)
  finally show ?thesis
    using r x by simp
qed

lemma bracket_not_digit: "is_digit c \<Longrightarrow> c \<noteq> CHR '']''"
  by (auto simp: is_digit_def in_range_def)

lemma close_after_digits:
  assumes "k \<le> length (takeWhile is_digit (rest st))"
  shows "ms fl (Seq (Lit CHR '']'') Eps) (adv st k) =
     (if k = length (takeWhile is_digit (rest st)) \<and> startswith (drop k (rest st)) '']''
      then [adv st (Suc k)] else [])"
proof -
  let ?s = "rest st"
  let ?n = "length (takeWhile is_digit ?s)"
  show ?thesis
  proof (cases "k = ?n")
    case True
    then show ?thesis
      by (cases "drop k ?s") (auto simp: take1_adv startswith_def adv_adv)
  next
    case False
    with assms have k: "k < ?n"
      by simp
    then have "k < length ?s"
      using length_takeWhile_le [of is_digit ?s] by simp
    moreover have "is_digit (?s ! k)"
      using k by (metis nth_mem set_takeWhileD takeWhile_nth)
    ultimately have "drop k ?s \<noteq> [] \<and> hd (drop k ?s) \<noteq> CHR '']''"
      using bracket_not_digit by (simp add: hd_drop_conv_nth)
    then show ?thesis
      using False by (auto simp: take1_adv)
  qed
qed

lemma digits_then_close:
  "ms fl (Seq (rep1 True dg) (Seq (Lit CHR '']'') Eps)) st =
     (let n = length (takeWhile is_digit (rest st))
      in if 0 < n \<and> startswith (drop n (rest st)) '']'' then [adv st (Suc n)] else [])"
proof (cases "rest st \<noteq> [] \<and> is_digit (hd (rest st))")
  case False
  then have "takeWhile is_digit (rest st) = []"
    by (cases "rest st") auto
  with False show ?thesis
    by (simp add: digits_ms)
next
  case True
  let ?n = "length (takeWhile is_digit (rest st))"
  let ?f = "\<lambda>k. ms fl (Seq (Lit CHR '']'') Eps) (adv st k)"
  from True have n: "0 < ?n"
    by (cases "rest st") auto
  have "ms fl (Seq (rep1 True dg) (Seq (Lit CHR '']'') Eps)) st
      = concat (map ?f (rev [1..<Suc ?n]))"
    using True by (simp add: digits_ms map_concat o_def del: upt_Suc ms.simps(1))
  also have "rev [1..<Suc ?n] = ?n # rev [1..<?n]"
    using n by (simp add: Suc_le_eq)
  also have "concat (map ?f (?n # rev [1..<?n])) = ?f ?n @ concat (map ?f (rev [1..<?n]))"
    by simp
  also have "concat (map ?f (rev [1..<?n])) = []"
    using close_after_digits [of _ st fl] by (auto simp del: ms.simps)
  also have "?f ?n = (if startswith (drop ?n (rest st)) '']'' then [adv st (Suc ?n)] else [])"
    using close_after_digits [of ?n st fl] by simp
  finally show ?thesis
    using n by (simp add: Let_def Suc_le_eq)
qed

lemma page_ms:
  "ms fl PAGE_RE st = (if 0 < page_len (rest st) then [adv st (page_len (rest st))] else [])"
proof -
  let ?tail = "Seq (rep1 True dg) (Seq (Lit CHR '']'') Eps)"
  have s: "PAGE_RE = Seq (str ''[PAGE_'') ?tail"
    by (simp add: PAGE_RE_def seqs_def)
  have "ms fl PAGE_RE st = concat (map (ms fl ?tail) (ms fl (str ''[PAGE_'') st))"
    by (simp only: s ms.simps(8))
  also have "\<dots> = (if startswith (rest st) ''[PAGE_'' then ms fl ?tail (adv st 6) else [])"
    by (simp only: str_ms) (simp del: ms.simps add: eval_nat_numeral)
  also have "\<dots> = (if 0 < page_len (rest st) then [adv st (page_len (rest st))] else [])"
    by (simp only: digits_then_close)
      (simp add: page_len_def Let_def adv_adv add.commute)
  finally show ?thesis .
qed

lemma markers_first_at:
  "first_at fl MARKERS_RE False st =
     (if 0 < marker_len (rest st)
      then Some \<lparr>m_start = pos st, m_end = pos st + marker_len (rest st), m_groups = caps st\<rparr>
      else None)"
  by (rule first_at_single) (rule markers_ms)

lemma page_first_at:
  "first_at fl PAGE_RE False st =
     (if 0 < page_len (rest st)
      then Some \<lparr>m_start = pos st, m_end = pos st + page_len (rest st), m_groups = caps st\<rparr>
      else None)"
  by (rule first_at_single) (rule page_ms)

lemma marker_len_le: "marker_len s \<le> length s"
  using startswith_length [of s "''IN THIS SECTION:''"] startswith_length [of s "''SEE ALSO:''"]
  by (simp add: marker_len_def)

lemma page_len_le: "page_len s \<le> length s"
proof -
  let ?n = "length (takeWhile is_digit (drop 6 s))"
  have "7 + ?n \<le> length s" if "startswith (drop (6 + ?n) s) '']''"
    using startswith_length [OF that] by simp
  then show ?thesis
    by (simp add: page_len_def Let_def)
qed

lemma sub_markers: "re_sub fl MARKERS_RE [] t = del marker_len t"
proof (rule re_sub_local)
  show "\<exists>m. first_at fl MARKERS_RE False st = Some m \<and> m_end m = pos st + marker_len (rest st)"
    if "0 < marker_len (rest st)" for st
    using that by (simp add: markers_first_at)
  show "first_at fl MARKERS_RE False st = None" if "marker_len (rest st) = 0" for st
    using that by (simp add: markers_first_at)
  show "marker_len s \<le> length s" for s
    by (rule marker_len_le)
qed

lemma sub_pages: "re_sub fl PAGE_RE [] t = del page_len t"
proof (rule re_sub_local)
  show "\<exists>m. first_at fl PAGE_RE False st = Some m \<and> m_end m = pos st + page_len (rest st)"
    if "0 < page_len (rest st)" for st
    using that by (simp add: page_first_at)
  show "first_at fl PAGE_RE False st = None" if "page_len (rest st) = 0" for st
    using that by (simp add: page_first_at)
  show "page_len s \<le> length s" for s
    by (rule page_len_le)
qed

text \<open>
  In a text of well-formed tokens no section marker starts inside plain text or inside a
  page marker: the text before the first colon would have to end with a marker literal
  and be one itself. So the first substitution deletes the section markers and nothing
  else, and the second deletes the page markers and nothing else.
\<close>

lemma digit_not_colon: "is_digit c \<Longrightarrow> c \<noteq> CHR '':'' \<and> c \<noteq> CHR ''[''"
  by (auto simp: is_digit_def in_range_def)

lemma page_no_colon:
  "list_all is_digit ds \<Longrightarrow> CHR '':'' \<notin> set (render (PageMark ds))"
  using digit_not_colon by (auto simp: list_all_iff)

lemma takeWhile_colon:
  "CHR '':'' \<notin> set u \<Longrightarrow>
     takeWhile (\<lambda>c. c \<noteq> CHR '':'') (u @ v) = u @ takeWhile (\<lambda>c. c \<noteq> CHR '':'') v"
  by (induction u) auto

lemma text_of_Cons: "text_of (t # ts) = render t @ text_of ts"
  by (simp add: text_of_def)

lemma before_colon:
  assumes "startswith s (l @ '':'')" and "CHR '':'' \<notin> set l"
  shows "takeWhile (\<lambda>c. c \<noteq> CHR '':'') s = l \<and> CHR '':'' \<in> set s"
proof -
  from assms(1) have "take (length (l @ '':'')) s = l @ '':''"
    by (simp only: startswith_def)
  then have s: "s = l @ CHR '':'' # drop (length (l @ '':'')) s"
    by (metis append_take_drop_id append_Cons append_Nil append_assoc)
  have "takeWhile (\<lambda>c. c \<noteq> CHR '':'') (l @ CHR '':'' # drop (length (l @ '':'')) s) = l"
    using takeWhile_colon [OF assms(2), of "CHR '':'' # drop (length (l @ '':'')) s"] by simp
  moreover have "CHR '':'' \<in> set (l @ CHR '':'' # drop (length (l @ '':'')) s)"
    by simp
  ultimately show ?thesis
    using s by metis
qed

lemma first_colon_tokens:
  "list_all token_ok ts \<Longrightarrow> CHR '':'' \<in> set (text_of ts) \<Longrightarrow>
     \<exists>pre m. (m = ''IN THIS SECTION'' \<or> m = ''SEE ALSO'')
        \<and> takeWhile (\<lambda>c. c \<noteq> CHR '':'') (text_of ts) = pre @ m"
proof (induction ts)
  case Nil
  then show ?case
    by (simp add: text_of_def)
next
  case (Cons t ts)
  have pass: ?case if nc: "CHR '':'' \<notin> set (render t)"
  proof -
    from Cons.prems nc have "CHR '':'' \<in> set (text_of ts)"
      by (simp add: text_of_Cons)
    with Cons obtain pre m where m: "m = ''IN THIS SECTION'' \<or> m = ''SEE ALSO''"
      and e: "takeWhile (\<lambda>c. c \<noteq> CHR '':'') (text_of ts) = pre @ m"
      by auto
    have "takeWhile (\<lambda>c. c \<noteq> CHR '':'') (text_of (t # ts)) = (render t @ pre) @ m"
      using nc e by (simp add: text_of_Cons takeWhile_colon)
    with m show ?thesis
      by blast
  qed
  show ?case
  proof (cases t)
    case (Plain p)
    with Cons.prems show ?thesis
      by (intro pass) simp
  next
    case (PageMark ds)
    with Cons.prems show ?thesis
      by (intro pass) (simp add: page_no_colon del: render.simps)
  next
    case InThisSection
    have "takeWhile (\<lambda>c. c \<noteq> CHR '':'') (text_of (t # ts)) = [] @ ''IN THIS SECTION''"
      by (simp add: text_of_Cons InThisSection)
    then show ?thesis
      by blast
  next
    case SeeAlso
    have "takeWhile (\<lambda>c. c \<noteq> CHR '':'') (text_of (t # ts)) = [] @ ''SEE ALSO''"
      by (simp add: text_of_Cons SeeAlso)
    then show ?thesis
      by blast
  qed
qed

lemma marker_not_suffix:
  assumes "w \<noteq> []" and "m = ''IN THIS SECTION'' \<or> m = ''SEE ALSO''"
    and "l = ''IN THIS SECTION'' \<or> l = ''SEE ALSO''"
  shows "w @ m \<noteq> l"
proof
  assume e: "w @ m = l"
  then have len: "length w + length m = length l"
    by (metis length_append)
  from e have d: "m = drop (length w) l"
    by (metis append_eq_conv_conj)
  from assms(2,3) show False
  proof (elim disjE)
    assume "m = ''IN THIS SECTION''" "l = ''IN THIS SECTION''"
    with len assms(1) show False by simp
  next
    assume "m = ''IN THIS SECTION''" "l = ''SEE ALSO''"
    with len show False by simp
  next
    assume "m = ''SEE ALSO''" "l = ''SEE ALSO''"
    with len assms(1) show False by simp
  next
    assume m: "m = ''SEE ALSO''" and l: "l = ''IN THIS SECTION''"
    with len have "length w = 7" by simp
    with d m l show False by simp
  qed
qed

lemma no_marker_inside:
  assumes q: "q \<noteq> []" "CHR '':'' \<notin> set q" and ok: "list_all token_ok ts"
  shows "marker_len (q @ text_of ts) = 0"
proof -
  have no: "\<not> startswith (q @ text_of ts) (l @ '':'')"
    if l: "l = ''IN THIS SECTION'' \<or> l = ''SEE ALSO''" for l
  proof
    assume sw: "startswith (q @ text_of ts) (l @ '':'')"
    from l have "CHR '':'' \<notin> set l"
      by auto
    from before_colon [OF sw this]
    have t: "takeWhile (\<lambda>c. c \<noteq> CHR '':'') (q @ text_of ts) = l"
      and c: "CHR '':'' \<in> set (q @ text_of ts)"
      by simp_all
    from c q(2) have "CHR '':'' \<in> set (text_of ts)"
      by simp
    from first_colon_tokens [OF ok this] obtain pre m
      where m: "m = ''IN THIS SECTION'' \<or> m = ''SEE ALSO''"
        and e: "takeWhile (\<lambda>c. c \<noteq> CHR '':'') (text_of ts) = pre @ m"
      by blast
    from t e q(2) have "(q @ pre) @ m = l"
      by (simp add: takeWhile_colon)
    moreover have "q @ pre \<noteq> []"
      using q(1) by simp
    ultimately show False
      using marker_not_suffix [OF _ m l] by blast
  qed
  from no [of "''IN THIS SECTION''"] no [of "''SEE ALSO''"] show ?thesis
    by (simp add: marker_len_def)
qed

lemma del_markers_plain:
  "CHR '':'' \<notin> set p \<Longrightarrow> list_all token_ok ts \<Longrightarrow>
     del marker_len (p @ text_of ts) = p @ del marker_len (text_of ts)"
proof (induction p)
  case Nil
  then show ?case by simp
next
  case (Cons c p)
  have "marker_len ((c # p) @ text_of ts) = 0"
    using Cons.prems by (intro no_marker_inside) simp_all
  with Cons show ?case
    by simp
qed

lemma del_markers_token:
  "del marker_len (''IN THIS SECTION:'' @ s) = del marker_len s"
  "del marker_len (''SEE ALSO:'' @ s) = del marker_len s"
  by (simp_all add: marker_len_def startswith_def)

lemma del_markers_tokens:
  "list_all token_ok ts \<Longrightarrow> del marker_len (text_of ts) = text_of (filter kept_first ts)"
proof (induction ts)
  case Nil
  then show ?case
    by (simp add: text_of_def)
next
  case (Cons t ts)
  from Cons have ih: "del marker_len (text_of ts) = text_of (filter kept_first ts)"
    and ok: "list_all token_ok ts"
    by simp_all
  show ?case
  proof (cases t)
    case (Plain p)
    with Cons.prems have "CHR '':'' \<notin> set (render t)"
      by simp
    from del_markers_plain [OF this ok] ih Plain show ?thesis
      by (simp add: text_of_Cons)
  next
    case (PageMark ds)
    with Cons.prems have "CHR '':'' \<notin> set (render t)"
      by (simp add: page_no_colon del: render.simps)
    from del_markers_plain [OF this ok] ih PageMark show ?thesis
      by (simp add: text_of_Cons del: render.simps)
  next
    case InThisSection
    with ih del_markers_token(1) [of "text_of ts"] show ?thesis
      by (simp add: text_of_Cons)
  next
    case SeeAlso
    with ih del_markers_token(2) [of "text_of ts"] show ?thesis
      by (simp add: text_of_Cons)
  qed
qed

lemma del_pages_plain:
  "CHR ''['' \<notin> set p \<Longrightarrow> del page_len (p @ s) = p @ del page_len s"
proof (induction p)
  case Nil
  then show ?case by simp
next
  case (Cons c p)
  then have "page_len ((c # p) @ s) = 0"
    by (auto simp: page_len_def startswith_def Let_def)
  with Cons show ?case
    by simp
qed

lemma del_pages_token:
  assumes "ds \<noteq> []" and "list_all is_digit ds"
  shows "del page_len (''[PAGE_'' @ ds @ '']'' @ s) = del page_len s"
proof -
  let ?t = "''[PAGE_'' @ ds @ '']'' @ s"
  have d: "drop 6 ?t = ds @ CHR '']'' # s"
    by simp
  have "takeWhile is_digit (ds @ CHR '']'' # s) = ds"
    using assms(2) bracket_not_digit
    by (subst takeWhile_tail) (auto simp: list_all_iff takeWhile_eq_all_conv)
  then have tw: "takeWhile is_digit (drop 6 ?t) = ds"
    by (simp only: d)
  have d2: "drop (6 + length ds) ?t = CHR '']'' # s"
    by (simp add: eval_nat_numeral)
  have sw: "startswith ?t ''[PAGE_''"
    by (simp add: startswith_def)
  have sw2: "startswith (CHR '']'' # s) '']''"
    by (simp add: startswith_def)
  have l: "page_len ?t = 7 + length ds"
    using assms(1) sw sw2 by (simp only: page_len_def tw Let_def d2 simp_thms if_True)
  have "0 < page_len ?t"
    unfolding l by simp
  then have "del page_len ?t = del page_len (drop (page_len ?t) ?t)"
    by (rule del_hit)
  also have "drop (page_len ?t) ?t = s"
    unfolding l by (simp add: eval_nat_numeral)
  finally show ?thesis .
qed

lemma plain_text_Cons: "plain_text (t # ts) = plain t @ plain_text ts"
  by (simp add: plain_text_def)

lemma del_pages_tokens:
  "list_all token_ok ts \<Longrightarrow> del page_len (text_of (filter kept_first ts)) = plain_text ts"
proof (induction ts)
  case Nil
  then show ?case
    by (simp add: text_of_def plain_text_def)
next
  case (Cons t ts)
  then have ih: "del page_len (text_of (filter kept_first ts)) = plain_text ts"
    by simp
  show ?case
  proof (cases t)
    case (Plain p)
    with Cons.prems have "CHR ''['' \<notin> set p"
      by simp
    from del_pages_plain [OF this, of "text_of (filter kept_first ts)"] ih Plain show ?thesis
      by (simp add: text_of_Cons plain_text_Cons)
  next
    case (PageMark ds)
    with Cons.prems have "ds \<noteq> []" "list_all is_digit ds"
      by simp_all
    from del_pages_token [OF this, of "text_of (filter kept_first ts)"] ih PageMark show ?thesis
      by (simp only: filter.simps kept_first.simps if_True text_of_Cons plain_text_Cons
          render.simps plain.simps append_Nil append_assoc)
  next
    case InThisSection
    with ih show ?thesis
      by (simp add: plain_text_Cons)
  next
    case SeeAlso
    with ih show ?thesis
      by (simp add: plain_text_Cons)
  qed
qed

lemma clean_tokens:
  assumes "list_all token_ok ts"
  shows "clean_description (text_of ts) = strip (collapse (plain_text ts))"
  using del_markers_tokens [OF assms] del_pages_tokens [OF assms]
  by (simp add: clean_description_def sub_markers sub_pages re_sub_ws)

lemma set_collapse: "set (collapse s) \<subseteq> insert CHR '' '' (set s)"
proof (induction s rule: collapse.induct)
  case 1
  then show ?case by simp
next
  case (2 c cs)
  show ?case
  proof (cases "is_space c")
    case True
    with 2(1) set_dropWhileD [of _ is_space cs] show ?thesis
      by auto
  next
    case False
    with 2(2) show ?thesis
      by auto
  qed
qed

lemma set_strip: "set (strip s) \<subseteq> set s"
proof
  fix x
  assume "x \<in> set (strip s)"
  then have "x \<in> set (dropWhile is_space (rev (dropWhile is_space s)))"
    by (simp add: strip_def)
  then have "x \<in> set (rev (dropWhile is_space s))"
    by (rule set_dropWhileD)
  then have "x \<in> set (dropWhile is_space s)"
    by simp
  then show "x \<in> set s"
    by (rule set_dropWhileD)
qed

lemma plain_text_chars:
  "list_all token_ok ts \<Longrightarrow> CHR '':'' \<notin> set (plain_text ts) \<and> CHR ''['' \<notin> set (plain_text ts)"
  by (induction ts) (auto simp: plain_text_def elim: token_ok.elims)

lemma clean_tokens_chars:
  assumes "list_all token_ok ts"
  shows "CHR '':'' \<notin> set (clean_description (text_of ts))"
    and "CHR ''['' \<notin> set (clean_description (text_of ts))"
  using plain_text_chars [OF assms] set_strip [of "collapse (plain_text ts)"]
    set_collapse [of "plain_text ts"]
  unfolding clean_tokens [OF assms] by auto

lemma marker_len_colon: "CHR '':'' \<notin> set s \<Longrightarrow> marker_len s = 0"
proof -
  have "CHR '':'' \<in> set s" if "startswith s (l @ '':'')" "CHR '':'' \<notin> set l" for l
    using before_colon [OF that] by simp
  from this [of "''IN THIS SECTION''"] this [of "''SEE ALSO''"] show
    "CHR '':'' \<notin> set s \<Longrightarrow> marker_len s = 0"
    by (auto simp: marker_len_def)
qed

lemma page_len_bracket: "CHR ''['' \<notin> set s \<Longrightarrow> page_len s = 0"
  by (cases s) (auto simp: page_len_def startswith_def Let_def)

lemma no_colon_no_marker:
  assumes "CHR '':'' \<notin> set s"
  shows "re_search fl MARKERS_RE s = None"
  unfolding re_search_def
proof (rule scan_none [where mlen = marker_len])
  show "first_at fl MARKERS_RE False st = None" if "marker_len (rest st) = 0" for st
    using that by (simp add: markers_first_at)
  show "marker_len (drop k (rest (cursor_at s 0))) = 0" for k
    using assms in_set_dropD [of "CHR '':''" k s] by (intro marker_len_colon) (auto simp: cursor_at_def)
qed

lemma no_bracket_no_page:
  assumes "CHR ''['' \<notin> set s"
  shows "re_search fl PAGE_RE s = None"
  unfolding re_search_def
proof (rule scan_none [where mlen = page_len])
  show "first_at fl PAGE_RE False st = None" if "page_len (rest st) = 0" for st
    using that by (simp add: page_first_at)
  show "page_len (drop k (rest (cursor_at s 0))) = 0" for k
    using assms in_set_dropD [of "CHR ''[''" k s] by (intro page_len_bracket) (auto simp: cursor_at_def)
qed

text \<open>
  C6, as the code has it. For every input the cleaned description has no run of two or
  more whitespace characters, no whitespace at either end, and no whitespace character
  other than the space. For every input made of whole markers \<^verbatim>\<open>IN THIS SECTION:\<close>,
  \<^verbatim>\<open>SEE ALSO:\<close> and \<^verbatim>\<open>[PAGE_n]\<close> and of text that holds no colon and no opening
  bracket, the cleaned description is that text without the markers, in whitespace normal
  form and trimmed, and no match of the two marker patterns is left in it.
\<close>

theorem clean_description_normal_form:
  "\<not> ws_run (clean_description t) \<and> \<not> ws_at_ends (clean_description t)
   \<and> only_plain_spaces (clean_description t)
   \<and> (list_all token_ok toks \<longrightarrow>
        clean_description (text_of toks) = strip (collapse (plain_text toks))
        \<and> re_search NOFLAGS MARKERS_RE (clean_description (text_of toks)) = None
        \<and> re_search NOFLAGS PAGE_RE (clean_description (text_of toks)) = None)"
  using clean_whitespace_normal [of t] clean_tokens [of toks]
    no_colon_no_marker [OF clean_tokens_chars(1), of toks NOFLAGS]
    no_bracket_no_page [OF clean_tokens_chars(2), of toks NOFLAGS]
  by blast

text \<open>C6's amended statement at a text with the three markers, the words \<^verbatim>\<open>Usage\<close> and
  \<^verbatim>\<open>Example\<close>, and leading, trailing and repeated whitespace.\<close>

theorem clean_description_normal_form_witness:
  "list_all token_ok [Plain ''  The '', InThisSection, Plain '' class\<newline>\<newline>Usage '',
      PageMark ''12'', Plain ''and Example \<newline>'', SeeAlso]
   \<and> text_of [Plain ''  The '', InThisSection, Plain '' class\<newline>\<newline>Usage '',
      PageMark ''12'', Plain ''and Example \<newline>'', SeeAlso]
     = ''  The IN THIS SECTION: class\<newline>\<newline>Usage [PAGE_12]and Example \<newline>SEE ALSO:''
   \<and> clean_description ''  The IN THIS SECTION: class\<newline>\<newline>Usage [PAGE_12]and Example \<newline>SEE ALSO:''
     = ''The class Usage and Example''
   \<and> re_search NOFLAGS MARKERS_RE (clean_description
        ''  The IN THIS SECTION: class\<newline>\<newline>Usage [PAGE_12]and Example \<newline>SEE ALSO:'') = None
   \<and> re_search NOFLAGS PAGE_RE (clean_description
        ''  The IN THIS SECTION: class\<newline>\<newline>Usage [PAGE_12]and Example \<newline>SEE ALSO:'') = None
   \<and> \<not> ws_run (clean_description
        ''  The IN THIS SECTION: class\<newline>\<newline>Usage [PAGE_12]and Example \<newline>SEE ALSO:'')
   \<and> \<not> ws_at_ends (clean_description
        ''  The IN THIS SECTION: class\<newline>\<newline>Usage [PAGE_12]and Example \<newline>SEE ALSO:'')
   \<and> only_plain_spaces (clean_description
        ''  The IN THIS SECTION: class\<newline>\<newline>Usage [PAGE_12]and Example \<newline>SEE ALSO:'')"
proof -
  let ?toks = "[Plain ''  The '', InThisSection, Plain '' class\<newline>\<newline>Usage '',
      PageMark ''12'', Plain ''and Example \<newline>'', SeeAlso]"
  have ok: "list_all token_ok ?toks"
    by code_simp
  have t: "text_of ?toks
      = ''  The IN THIS SECTION: class\<newline>\<newline>Usage [PAGE_12]and Example \<newline>SEE ALSO:''"
    by code_simp
  have p: "strip (collapse (plain_text ?toks)) = ''The class Usage and Example''"
    by code_simp
  from clean_description_normal_form [of "text_of ?toks" ?toks] ok
  have "clean_description (text_of ?toks) = strip (collapse (plain_text ?toks))
      \<and> re_search NOFLAGS MARKERS_RE (clean_description (text_of ?toks)) = None
      \<and> re_search NOFLAGS PAGE_RE (clean_description (text_of ?toks)) = None
      \<and> \<not> ws_run (clean_description (text_of ?toks))
      \<and> \<not> ws_at_ends (clean_description (text_of ?toks))
      \<and> only_plain_spaces (clean_description (text_of ?toks))"
    by blast
  then show ?thesis
    unfolding p unfolding t using ok t by blast
qed

text \<open>
  C6 as stated fails: the output is stated to hold no token of the marker vocabulary. The
  cleaner has no rule for \<^verbatim>\<open>Usage\<close> and \<^verbatim>\<open>Example\<close>, and deleting one marker can
  join the text around it into another.
\<close>

theorem clean_description_keeps_markers:
  "clean_description ''Usage'' = ''Usage'' \<and> ''Usage'' \<in> set SECTION_MARKERS
   \<and> clean_description ''Example'' = ''Example'' \<and> ''Example'' \<in> set SECTION_MARKERS
   \<and> clean_description ''SEE SEE ALSO:ALSO:'' = ''SEE ALSO:''
   \<and> clean_description ''[PAGE_[PAGE_1]2]'' = ''[PAGE_2]''"
  by code_simp

text \<open>
  C7, as the code has it. Cleaning a cleaned description again changes nothing whenever
  the cleaned description holds no match of the two marker patterns the cleaner removes
  (\<^verbatim>\<open>IN THIS SECTION:|SEE ALSO:\<close> and \<^verbatim>\<open>\[PAGE_\d+\]\<close>).
\<close>

theorem clean_description_idempotent_without_markers:
  assumes "re_search NOFLAGS MARKERS_RE (clean_description t) = None"
    and "re_search NOFLAGS PAGE_RE (clean_description t) = None"
  shows "clean_description (clean_description t) = clean_description t"
proof -
  let ?y = "clean_description t"
  have n: "\<not> ws_run ?y" "\<not> ws_at_ends ?y" "only_plain_spaces ?y"
    by (simp_all add: clean_description_def re_sub_ws strip_no_run strip_ends strip_plain
      collapse_normal)
  have "clean_description ?y = strip (collapse ?y)"
    using assms
    by (simp add: clean_description_def [of ?y] re_sub_no_match re_sub_ws)
  with n show ?thesis
    by (simp add: collapse_fixed strip_fixed)
qed

text \<open>C7's amended statement at a text whose cleaned form is \<^verbatim>\<open>a b\<close>.\<close>

theorem clean_description_idempotent_without_markers_witness:
  "re_search NOFLAGS MARKERS_RE (clean_description ''  IN THIS SECTION: a \<newline>\<newline> b [PAGE_3] '') = None
   \<and> re_search NOFLAGS PAGE_RE (clean_description ''  IN THIS SECTION: a \<newline>\<newline> b [PAGE_3] '') = None
   \<and> clean_description ''  IN THIS SECTION: a \<newline>\<newline> b [PAGE_3] '' = ''a b''
   \<and> clean_description (clean_description ''  IN THIS SECTION: a \<newline>\<newline> b [PAGE_3] '')
       = clean_description ''  IN THIS SECTION: a \<newline>\<newline> b [PAGE_3] ''"
proof -
  have a: "re_search NOFLAGS MARKERS_RE (clean_description ''  IN THIS SECTION: a \<newline>\<newline> b [PAGE_3] '') = None"
    by code_simp
  have b: "re_search NOFLAGS PAGE_RE (clean_description ''  IN THIS SECTION: a \<newline>\<newline> b [PAGE_3] '') = None"
    by code_simp
  have c: "clean_description ''  IN THIS SECTION: a \<newline>\<newline> b [PAGE_3] '' = ''a b''"
    by code_simp
  from clean_description_idempotent_without_markers [OF a b] a b c show ?thesis
    by blast
qed

text \<open>
  C7 as stated fails: removing the page marker from \<^verbatim>\<open>IN THIS SEC[PAGE_1]TION:\<close> leaves
  \<^verbatim>\<open>IN THIS SECTION:\<close>, which a second cleaning removes.
\<close>

theorem clean_description_not_idempotent:
  "clean_description ''IN THIS SEC[PAGE_1]TION:'' = ''IN THIS SECTION:''
   \<and> clean_description (clean_description ''IN THIS SEC[PAGE_1]TION:'') = []"
  by code_simp


section \<open>Empty and unreadable input\<close>

lemma read_pages_no_text:
  "list_all (\<lambda>p. \<not> has_text p) ps \<Longrightarrow>
     fst (read_pages ps i acc cp) = None \<or> fst (read_pages ps i acc cp) = Some acc"
  by (induction ps i acc cp rule: read_pages.induct) (auto simp: has_text_def)

lemma read_pages_error:
  "PageError \<in> set ps \<Longrightarrow> fst (read_pages ps i acc cp) = None"
  by (induction ps i acc cp rule: read_pages.induct) auto

text \<open>
  C8, as the code has it. When the PDF cannot be opened, when extracting a page raises, or
  when no page yields text, \<^verbatim>\<open>process_pdf\<close> returns the empty dictionary \<^verbatim>\<open>{}\<close>, which has
  no title, description or collection at all; \<^verbatim>\<open>parse_document\<close> on the empty text
  returns its fixed title and description and an empty list of namespaces. Neither raises.
\<close>

theorem empty_input_gives_empty_dict:
  "fst (process_pdf cp OpenError) = EmptyDict
   \<and> (PageError \<in> set pages \<longrightarrow> fst (process_pdf cp (Pdf pages)) = EmptyDict)
   \<and> (list_all (\<lambda>p. \<not> has_text p) pages \<longrightarrow> fst (process_pdf cp (Pdf pages)) = EmptyDict)
   \<and> parse_document [] =
       \<lparr>ap_title = ''Apex Reference Guide'',
        ap_doc_description = ''Extracted Apex content organized by namespaces.'',
        ap_namespaces = []\<rparr>"
proof (intro conjI impI)
  show "fst (process_pdf cp OpenError) = EmptyDict"
    by (simp add: process_pdf_def extract_text_from_pdf_def)
next
  assume "PageError \<in> set pages"
  from read_pages_error [OF this, of 0 "[]" cp]
  show "fst (process_pdf cp (Pdf pages)) = EmptyDict"
    by (cases "read_pages pages 0 [] cp") (simp add: process_pdf_def extract_text_from_pdf_def)
next
  assume "list_all (\<lambda>p. \<not> has_text p) pages"
  from read_pages_no_text [OF this, of 0 "[]" cp]
  show "fst (process_pdf cp (Pdf pages)) = EmptyDict"
    by (cases "read_pages pages 0 [] cp") (auto simp: process_pdf_def extract_text_from_pdf_def)
next
  have "finditer MULTILINE namespace_pattern [] = []"
    by code_simp
  then show "parse_document [] =
       \<lparr>ap_title = ''Apex Reference Guide'',
        ap_doc_description = ''Extracted Apex content organized by namespaces.'',
        ap_namespaces = []\<rparr>"
    by (simp add: parse_document_def ApexDocParser_extract_namespaces_def)
qed

text \<open>C8's amended statement at a document whose second page raises and at a document of
  two pages without text.\<close>

theorem empty_input_witness:
  "fst (process_pdf 0 OpenError) = EmptyDict
   \<and> fst (process_pdf 0 (Pdf [PageText (Some ''abc''), PageError])) = EmptyDict
   \<and> fst (process_pdf 0 (Pdf [PageText None, PageText (Some '''')])) = EmptyDict
   \<and> ap_namespaces (parse_document []) = []"
proof -
  have a: "PageError \<in> set [PageText (Some ''abc''), PageError]"
    by simp
  have b: "list_all (\<lambda>p. \<not> has_text p) [PageText None, PageText (Some '''')]"
    by (simp add: has_text_def)
  from empty_input_gives_empty_dict [of 0 "[PageText (Some ''abc''), PageError]"] a
  have 1: "fst (process_pdf 0 (Pdf [PageText (Some ''abc''), PageError])) = EmptyDict"
    by blast
  from empty_input_gives_empty_dict [of 0 "[PageText None, PageText (Some '''')]"] b
  have 2: "fst (process_pdf 0 OpenError) = EmptyDict"
    "fst (process_pdf 0 (Pdf [PageText None, PageText (Some '''')])) = EmptyDict"
    "parse_document [] =
       \<lparr>ap_title = ''Apex Reference Guide'',
        ap_doc_description = ''Extracted Apex content organized by namespaces.'',
        ap_namespaces = []\<rparr>"
    by blast+
  from 1 2 show ?thesis
    by simp
qed

text \<open>C8 as stated fails: the document \<^verbatim>\<open>parse_document\<close> returns for the empty text is
  stated to have an empty title.\<close>

theorem empty_text_document_has_title:
  "ap_title (parse_document []) = ''Apex Reference Guide'' \<and> ap_title (parse_document []) \<noteq> []"
  by (simp add: parse_document_def)


section \<open>Entity names\<close>

text \<open>Group 1 of every match of a heading pattern is an identifier: the group is taken
  by \<^verbatim>\<open>[A-Z][a-zA-Z]+\<close>, and nothing after it in the pattern captures.\<close>

lemma take1_caps: "st' \<in> set (take1 ok st) \<Longrightarrow> caps st' = caps st"
  by (cases "rest st") (auto simp: take1_def step_def split: if_splits)

lemma no_grp_caps:
  "no_grp r \<Longrightarrow> st' \<in> set (ms fl r st) \<Longrightarrow> caps st' = caps st"
proof (induction fl r st arbitrary: st' rule: ms.induct)
  case (1 fl c st)
  then show ?case by (auto dest!: take1_caps)
next
  case (2 fl st)
  then show ?case by (auto dest!: take1_caps)
next
  case (3 fl neg items st)
  then show ?case by (auto dest!: take1_caps)
next
  case (8 fl r1 r2 st)
  then obtain mid where m: "mid \<in> set (ms fl r1 st)" "st' \<in> set (ms fl r2 mid)"
    by auto
  from "8.IH"(1) [OF _ m(1)] "8.IH"(2) [OF m(1) _ m(2)] "8.prems"(1) show ?case
    by simp
next
  case (9 fl r1 r2 st)
  then show ?case by auto
next
  case (10 fl greedy r st)
  show ?case
  proof (cases "st' = st")
    case True
    then show ?thesis by simp
  next
    case False
    with "10.prems"(2) [unfolded ms.simps(10) [of fl greedy r st]]
    obtain mid where m: "mid \<in> set (ms fl r st)"
      "length (rest mid) < length (rest st)" "st' \<in> set (ms fl (Rep greedy r) mid)"
      by (auto simp: Let_def split: if_splits)
    from "10.IH"(1) [OF _ m(1)] "10.IH"(2) [OF m(1) m(2) _ m(3)] "10.prems"(1) show ?thesis
      by simp
  qed
qed (simp_all split: if_splits)

lemma wf_step: "wf t st \<Longrightarrow> rest st = x # xs \<Longrightarrow> wf t (step st x xs)"
  by (auto simp: wf_def step_def)

lemma wf_cursor: "i \<le> length t \<Longrightarrow> wf t (cursor_at t i)"
  by (simp add: wf_def cursor_at_def min_def)

lemma wf_slice: "wf t st \<Longrightarrow> slice t (pos st) (pos st + k) = take k (rest st)"
  by (auto simp: wf_def slice_def)

lemma upper_cls: "cls_has False [CRange CHR ''A'' CHR ''Z''] = in_range CHR ''A'' CHR ''Z''"
  by (auto simp: cls_has_def fun_eq_iff)

lemma letter_cls:
  "cls_has False [CRange CHR ''a'' CHR ''z'', CRange CHR ''A'' CHR ''Z''] = is_letter"
  by (auto simp: cls_has_def is_letter_def fun_eq_iff)

lemma take_takeWhile_all: "j \<le> length (takeWhile P xs) \<Longrightarrow> list_all P (take j xs)"
proof -
  assume j: "j \<le> length (takeWhile P xs)"
  have "take j xs = take j (takeWhile P xs @ dropWhile P xs)"
    by simp
  also have "\<dots> = take j (takeWhile P xs)"
    using j by (simp del: takeWhile_dropWhile_id)
  finally have "set (take j xs) \<subseteq> set (takeWhile P xs)"
    by (metis set_take_subset)
  then show ?thesis
    by (auto simp: list_all_iff dest: set_takeWhileD)
qed

lemma ident_ms:
  assumes "st' \<in> set (ms fl heading_ident st)"
  shows "\<exists>k. st' = adv st k \<and> is_ident (take k (rest st))"
proof -
  let ?L = "Cls False [CRange CHR ''a'' CHR ''z'', CRange CHR ''A'' CHR ''Z'']"
  have atom: "\<And>s. ms fl ?L s = take1 is_letter s"
    by (simp add: letter_cls)
  from assms obtain a r1 where r: "rest st = a # r1" and a: "in_range CHR ''A'' CHR ''Z'' a"
    and 1: "st' \<in> set (ms fl (Seq ?L (Rep True ?L)) (adv st 1))"
    by (cases "rest st")
       (auto simp: heading_ident_def rep1_def upper_cls take1_adv split: if_splits)
  from 1 r obtain b cs where r1: "r1 = b # cs" and b: "is_letter b"
    and 2: "st' \<in> set (ms fl (Rep True ?L) (adv (adv st 1) 1))"
    by (cases r1) (auto simp: letter_cls take1_adv split: if_splits)
  have rr: "rest (adv (adv st 1) 1) = cs"
    using r r1 by simp
  from 2 have "st' \<in> set (map (adv (adv (adv st 1) 1))
      (rev [0..<Suc (length (takeWhile is_letter cs))]))"
    unfolding rep_greedy_atom [of fl ?L is_letter, OF atom] rr .
  then obtain j where "j < Suc (length (takeWhile is_letter cs))"
    and s: "st' = adv (adv (adv st 1) 1) j"
    by (auto simp del: upt_Suc)
  then have j: "j \<le> length (takeWhile is_letter cs)"
    by simp
  have "st' = adv st (2 + j)"
    by (simp add: s adv_adv)
  moreover have "is_ident (take (2 + j) (rest st))"
    using a b r r1 take_takeWhile_all [OF j] by simp
  ultimately show ?thesis
    by blast
qed

lemma no_grp_str: "no_grp (str s)"
  by (induction s) (simp_all add: str_def)

lemma no_grp_ident: "no_grp heading_ident"
  by (simp add: heading_ident_def rep1_def)

lemma ms_Seq_Bol:
  "st' \<in> set (ms fl (Seq Bol r) st) \<Longrightarrow> st' \<in> set (ms fl r st)"
  by (simp split: if_splits)

lemma ms_Seq_Grp:
  "st' \<in> set (ms fl (Seq (Grp n h) r) st) \<Longrightarrow>
     \<exists>s1 \<in> set (ms fl h st). st' \<in> set (ms fl r (s1\<lparr>caps := (n, pos st, pos s1) # caps s1\<rparr>))"
  by auto

lemma first_at_member:
  "first_at fl r a st = Some m \<Longrightarrow>
     \<exists>st' \<in> set (ms fl r st). m = \<lparr>m_start = pos st, m_end = pos st', m_groups = caps st'\<rparr>"
proof -
  assume f: "first_at fl r a st = Some m"
  let ?ok = "\<lambda>s. if a then pos s \<noteq> pos st else True"
  from f obtain st' sts where l: "filter ?ok (ms fl r st) = st' # sts"
    and m: "m = \<lparr>m_start = pos st, m_end = pos st', m_groups = caps st'\<rparr>"
    by (auto simp: first_at_def split: list.splits)
  from l have "st' \<in> set (filter ?ok (ms fl r st))"
    by simp
  then have "st' \<in> set (ms fl r st)"
    by simp
  with m show ?thesis
    by blast
qed

lemma heading_first_at:
  assumes w: "wf t st" and c: "caps st = []"
    and f: "first_at fl (heading_re kind) a st = Some m"
  shows "is_ident (m_group t m 1)"
proof -
  let ?tail = "Seq (rep1 True sp) (Seq (str kind) (Seq (Rep True sp) (Seq Eol Eps)))"
  have nt: "no_grp ?tail"
    by (simp add: rep1_def sp_def no_grp_str)
  have h: "heading_re kind = Seq Bol (Seq (Grp 1 heading_ident) ?tail)"
    by (simp add: heading_re_def seqs_def)
  from first_at_member [OF f] obtain st' where
    m: "m = \<lparr>m_start = pos st, m_end = pos st', m_groups = caps st'\<rparr>"
    and mem: "st' \<in> set (ms fl (heading_re kind) st)"
    by blast
  from mem [unfolded h] have "st' \<in> set (ms fl (Seq (Grp 1 heading_ident) ?tail) st)"
    by (rule ms_Seq_Bol)
  from ms_Seq_Grp [OF this] obtain s1 where s1: "s1 \<in> set (ms fl heading_ident st)"
    and t: "st' \<in> set (ms fl ?tail (s1\<lparr>caps := (1, pos st, pos s1) # caps s1\<rparr>))"
    by blast
  from ident_ms [OF s1] obtain k where k: "s1 = adv st k" "is_ident (take k (rest st))"
    by blast
  have "caps st' = (1, pos st, pos s1) # caps s1"
    using no_grp_caps [OF nt t] by simp
  moreover have "caps s1 = []"
    using no_grp_caps [OF no_grp_ident s1] c by simp
  ultimately have "m_group t m 1 = slice t (pos st) (pos st + k)"
    using k(1) by (simp add: m m_group_def)
  with wf_slice [OF w] k(2) show ?thesis
    by simp
qed

lemma heading_scan:
  "wf t st \<Longrightarrow> caps st = [] \<Longrightarrow> scan fl (heading_re kind) a st = Some m \<Longrightarrow>
     is_ident (m_group t m 1)"
proof (induction fl "heading_re kind" a st rule: scan.induct)
  case (1 fl a st)
  show ?case
  proof (cases "first_at fl (heading_re kind) a st")
    case (Some m')
    with "1.prems"(3) have "m' = m"
      by (simp add: scan.simps [of fl _ a st])
    with heading_first_at [OF "1.prems"(1,2) Some] show ?thesis
      by simp
  next
    case None
    with "1.prems"(3) obtain x xs where r: "rest st = x # xs"
      and s: "scan fl (heading_re kind) False (step st x xs) = Some m"
      by (auto simp: scan.simps [of fl _ a st] split: list.splits)
    have "caps (step st x xs) = []"
      using "1.prems"(2) by (simp add: step_def)
    from "1.hyps" [OF None r wf_step [OF "1.prems"(1) r] this s] show ?thesis .
  qed
qed

lemma heading_finditer:
  "m \<in> set (finditer_from fl (heading_re kind) t i a) \<Longrightarrow> is_ident (m_group t m 1)"
proof (induction fl "heading_re kind" t i a rule: finditer_from.induct)
  case (1 fl t i a)
  from "1.prems" have i: "i \<le> length t"
    by (simp add: finditer_from.simps [of fl _ t i a] split: if_splits)
  show ?case
  proof (cases "scan fl (heading_re kind) a (cursor_at t i)")
    case None
    from None i "1.prems" show ?thesis
      by (simp add: finditer_from.simps [of fl _ t i a])
  next
    case (Some m')
    from Some i "1.prems"
    have "m = m' \<or> m \<in> set (finditer_from fl (heading_re kind) t (m_end m') (m_end m' = m_start m'))"
      by (simp add: finditer_from.simps [of fl _ t i a])
    then show ?thesis
    proof
      assume "m = m'"
      with heading_scan [OF wf_cursor [OF i] _ Some] show ?thesis
        by (simp add: cursor_at_def)
    next
      assume "m \<in> set (finditer_from fl (heading_re kind) t (m_end m') (m_end m' = m_start m'))"
      with "1.hyps" [OF _ Some] i show ?thesis
        by simp
    qed
  qed
qed

lemma heading_patterns:
  "NAMESPACE_START = heading_re ''Namespace''"
  "CLASS_START = heading_re ''Class''"
  "DML_OPERATION_start = heading_re ''Statement''"
  by (simp_all add: NAMESPACE_START_def CLASS_START_def DML_OPERATION_start_def heading_re_def)

text \<open>
  C10. The name of every class entity is the identifier captured by the heading match
  (group 1) followed by \<^verbatim>\<open>' Class'\<close>, the name of every statement entity is the captured
  identifier followed by \<^verbatim>\<open>' Statement'\<close>, and the name of a namespace entity is the
  captured identifier alone, with no suffix; the entities are in the order of the heading
  matches, and the captured identifier is an upper-case letter followed by letters.
\<close>

theorem entity_names_from_heading_match:
  "map class_name (extract_classes text)
     = map (\<lambda>m. m_group text m 1 @ '' Class'') (finditer MULTILINE CLASS_START text)
   \<and> map operation_name (extract_dml_operations text)
     = map (\<lambda>m. m_group text m 1 @ '' Statement'') (finditer MULTILINE DML_OPERATION_start text)
   \<and> map namespace_name (extract_namespaces text)
     = map (\<lambda>m. m_group text m 1) (finditer MULTILINE NAMESPACE_START text)
   \<and> (\<forall>c \<in> set (extract_classes text).
         \<exists>ident. is_ident ident \<and> class_name c = ident @ '' Class'')
   \<and> (\<forall>s \<in> set (extract_dml_operations text).
         \<exists>ident. is_ident ident \<and> operation_name s = ident @ '' Statement'')
   \<and> (\<forall>n \<in> set (extract_namespaces text). is_ident (namespace_name n))"
proof -
  have id: "\<And>kind m. m \<in> set (finditer MULTILINE (heading_re kind) text)
      \<Longrightarrow> is_ident (m_group text m 1)"
    unfolding finditer_def by (rule heading_finditer)
  have c: "\<forall>c \<in> set (extract_classes text).
      \<exists>ident. is_ident ident \<and> class_name c = ident @ '' Class''"
    using id [of _ "''Class''"]
    by (auto simp: extract_classes_def class_of_def Let_def heading_patterns)
  have s: "\<forall>s \<in> set (extract_dml_operations text).
      \<exists>ident. is_ident ident \<and> operation_name s = ident @ '' Statement''"
    using id [of _ "''Statement''"]
    by (auto simp: extract_dml_operations_def operation_of_def Let_def heading_patterns)
  have n: "\<forall>n \<in> set (extract_namespaces text). is_ident (namespace_name n)"
    using id [of _ "''Namespace''"]
    by (auto simp: extract_namespaces_def namespace_of_def Let_def heading_patterns)
  have e: "map class_name (extract_classes text)
     = map (\<lambda>m. m_group text m 1 @ '' Class'') (finditer MULTILINE CLASS_START text)"
    "map operation_name (extract_dml_operations text)
     = map (\<lambda>m. m_group text m 1 @ '' Statement'') (finditer MULTILINE DML_OPERATION_start text)"
    "map namespace_name (extract_namespaces text)
     = map (\<lambda>m. m_group text m 1) (finditer MULTILINE NAMESPACE_START text)"
    by (simp_all add: extract_classes_def class_of_def extract_dml_operations_def
        operation_of_def extract_namespaces_def namespace_of_def Let_def comp_def)
  from e c s n show ?thesis
    by blast
qed

text \<open>C10 on a text with one heading of each kind.\<close>

theorem entity_names_example:
  "map class_name (extract_classes ''System Namespace\<newline>Limits Class\<newline>Insert Statement'')
     = [''Limits Class'']
   \<and> map operation_name
        (extract_dml_operations ''System Namespace\<newline>Limits Class\<newline>Insert Statement'')
     = [''Insert Statement'']
   \<and> map namespace_name
        (extract_namespaces ''System Namespace\<newline>Limits Class\<newline>Insert Statement'')
     = [''System'']
   \<and> is_ident ''Limits'' \<and> is_ident ''Insert'' \<and> is_ident ''System''"
proof -
  have 1: "map (\<lambda>m. m_group ''System Namespace\<newline>Limits Class\<newline>Insert Statement'' m 1 @ '' Class'')
          (finditer MULTILINE CLASS_START ''System Namespace\<newline>Limits Class\<newline>Insert Statement'')
        = [''Limits Class'']"
    by code_simp
  have 2: "map (\<lambda>m. m_group ''System Namespace\<newline>Limits Class\<newline>Insert Statement'' m 1 @ '' Statement'')
          (finditer MULTILINE DML_OPERATION_start ''System Namespace\<newline>Limits Class\<newline>Insert Statement'')
        = [''Insert Statement'']"
    by code_simp
  have 3: "map (\<lambda>m. m_group ''System Namespace\<newline>Limits Class\<newline>Insert Statement'' m 1)
          (finditer MULTILINE NAMESPACE_START ''System Namespace\<newline>Limits Class\<newline>Insert Statement'')
        = [''System'']"
    by code_simp
  have 4: "is_ident ''Limits'' \<and> is_ident ''Insert'' \<and> is_ident ''System''"
    by code_simp
  from entity_names_from_heading_match [of "''System Namespace\<newline>Limits Class\<newline>Insert Statement''"]
  have "map class_name (extract_classes ''System Namespace\<newline>Limits Class\<newline>Insert Statement'')
     = map (\<lambda>m. m_group ''System Namespace\<newline>Limits Class\<newline>Insert Statement'' m 1 @ '' Class'')
         (finditer MULTILINE CLASS_START ''System Namespace\<newline>Limits Class\<newline>Insert Statement'')"
    "map operation_name (extract_dml_operations ''System Namespace\<newline>Limits Class\<newline>Insert Statement'')
     = map (\<lambda>m. m_group ''System Namespace\<newline>Limits Class\<newline>Insert Statement'' m 1 @ '' Statement'')
         (finditer MULTILINE DML_OPERATION_start ''System Namespace\<newline>Limits Class\<newline>Insert Statement'')"
    "map namespace_name (extract_namespaces ''System Namespace\<newline>Limits Class\<newline>Insert Statement'')
     = map (\<lambda>m. m_group ''System Namespace\<newline>Limits Class\<newline>Insert Statement'' m 1)
         (finditer MULTILINE NAMESPACE_START ''System Namespace\<newline>Limits Class\<newline>Insert Statement'')"
    by blast+
  with 1 2 3 4 show ?thesis
    by (simp only: simp_thms)
qed

end
